theory Spec2Isabelle
  imports Main "HOL-Library.Char_ord" "HOL-Library.List_Lexorder" "HOL-Library.Sublist"
begin

section \<open>Tree differ (\<^verbatim>\<open>sync.py\<close>, \<^verbatim>\<open>diff_trees\<close>)\<close>

text \<open>
  A snapshot is a Python \<^verbatim>\<open>dict[str, str]\<close>.  It is modelled as an association list, the
  order of the list being the insertion order of the dictionary; the mapping it represents
  is \<^term>\<open>map_of\<close> of the list.  Strings are compared as Python compares them:
  lexicographically, character by character, a proper prefix being smaller.
\<close>

type_synonym snapshot = "(string \<times> string) list"

text \<open>\<^verbatim>\<open>d.get(key, default)\<close>\<close>

definition dict_get :: "snapshot \<Rightarrow> string \<Rightarrow> string \<Rightarrow> string" where
  "dict_get d key dflt = (case map_of d key of None \<Rightarrow> dflt | Some v \<Rightarrow> v)"

text \<open>\<^verbatim>\<open>key in d\<close>\<close>

definition dict_mem :: "string \<Rightarrow> snapshot \<Rightarrow> bool" where
  "dict_mem key d = (key \<in> set (map fst d))"

text \<open>
  \<^verbatim>\<open>difflib.unified_diff\<close> and \<^verbatim>\<open>str.splitlines(keepends=True)\<close> belong to the Python
  standard library, not to the program.  They are parameters of the model: \<open>splitlines\<close>
  cuts a text into lines, \<open>unified_diff a b fromfile tofile\<close> gives the lines of the diff.
\<close>

type_synonym splitlines_fn = "string \<Rightarrow> string list"
type_synonym unified_diff_fn = "string list \<Rightarrow> string list \<Rightarrow> string \<Rightarrow> string \<Rightarrow> string list"

text \<open>\<^verbatim>\<open>all_paths = sorted(set(local_files) | set(remote_files))\<close>\<close>

definition all_paths :: "snapshot \<Rightarrow> snapshot \<Rightarrow> string list" where
  "all_paths local_files remote_files =
     sorted_list_of_set (set (map fst local_files) \<union> set (map fst remote_files))"

text \<open>
  The \<^verbatim>\<open>for path in all_paths\<close> loop; \<open>diffs\<close> is the list the loop appends to, and each
  \<^verbatim>\<open>continue\<close> is a recursive call on the remaining paths.
\<close>

fun diff_loop :: "splitlines_fn \<Rightarrow> unified_diff_fn \<Rightarrow> snapshot \<Rightarrow> snapshot \<Rightarrow>
    string list \<Rightarrow> string list \<Rightarrow> string list" where
  "diff_loop splitlines unified_diff local_files remote_files [] diffs = diffs"
| "diff_loop splitlines unified_diff local_files remote_files (path # paths) diffs =
    (let local_content = dict_get local_files path '''';
         remote_content = dict_get remote_files path ''''
     in if local_content = remote_content
        then diff_loop splitlines unified_diff local_files remote_files paths diffs
        else if \<not> dict_mem path remote_files
        then diff_loop splitlines unified_diff local_files remote_files paths
               (diffs @ [''  + '' @ path @ '' (local only)''])
        else if \<not> dict_mem path local_files
        then diff_loop splitlines unified_diff local_files remote_files paths
               (diffs @ [''  - '' @ path @ '' (remote only)''])
        else
          (let diff_lines = unified_diff (splitlines remote_content) (splitlines local_content)
                              (''remote/'' @ path) (''local/'' @ path);
               diff_text = concat diff_lines
           in if diff_text \<noteq> ''''
              then diff_loop splitlines unified_diff local_files remote_files paths
                     (diffs @ [diff_text])
              else diff_loop splitlines unified_diff local_files remote_files paths diffs))"

definition diff_trees :: "splitlines_fn \<Rightarrow> unified_diff_fn \<Rightarrow> snapshot \<Rightarrow> snapshot \<Rightarrow> string list" where
  "diff_trees splitlines unified_diff local_files remote_files =
     diff_loop splitlines unified_diff local_files remote_files
       (all_paths local_files remote_files) []"

text \<open>
  Stand-ins for the two library functions, used only to evaluate the model on concrete
  inputs: every text is one line, and the diff of two different line lists is its two
  header lines.
\<close>

definition one_line :: splitlines_fn where
  "one_line s = [s]"

definition header_diff :: unified_diff_fn where
  "header_diff a b fromfile tofile =
     (if a = b then [] else [''--- '' @ fromfile, ''+++ '' @ tofile])"

section \<open>The file system\<close>

text \<open>
  The program works on the file system through \<^verbatim>\<open>pathlib\<close>, \<^verbatim>\<open>shutil\<close> and \<^verbatim>\<open>os\<close>.  A file
  system is modelled as a tree.  A regular file carries its mode (may the process read it,
  may it write it) and its bytes; a directory carries its entries; a symbolic link carries
  its link-target string and an annotation.  A path is the list of its components,
  relative to the root of the tree it is used with.

  The program reads the source directory and never changes it, and it builds the staging
  directory as a new tree of its own.  For these trees the annotation of a link is the
  object the link resolves to, \<open>None\<close> for a dangling link (a link whose resolution runs
  into a cycle is dangling, as \<^verbatim>\<open>Path.exists\<close> reports it); it may lie outside the tree.  The
  target file system is changed while it is read, and there one object can be reached by
  several paths: for it the annotation is not used, and a link is resolved against the
  tree itself, from its target string (section \<open>The target file system\<close>).

  The order in which a directory lists its entries is not observable through the calls
  the program makes, so a directory that the model writes is stored in name order
  (\<open>listing\<close>), and a lookup by name takes the first entry of that name.
\<close>

type_synonym name = string
type_synonym path = "name list"

datatype mode = Mode (may_read: bool) (may_write: bool)

abbreviation rw :: mode where "rw \<equiv> Mode True True"

abbreviation ro :: mode where "ro \<equiv> Mode True False"

datatype node =
    File mode string
  | Dir "(name \<times> node) list"
  | Symlink string "node option"

datatype error =
    FileNotFoundError
  | FileExistsError
  | NotADirectoryError
  | IsADirectoryError
  | PermissionError
  | UnicodeDecodeError
  | OSError
  | ShutilError
  | LinkTraversal
  | ValueError

text \<open>What a node is once every link at it is followed.\<close>

fun follow :: "node \<Rightarrow> node option" where
  "follow (Symlink target None) = None"
| "follow (Symlink target (Some n)) = follow n"
| "follow n = Some n"

text \<open>
  \<^verbatim>\<open>os.lstat\<close>: the links on the way to the last component are followed, the last
  component is not.  \<^verbatim>\<open>os.stat\<close> follows it as well.
\<close>

fun lstat :: "node \<Rightarrow> path \<Rightarrow> node option" where
  "lstat n [] = Some n"
| "lstat n (c # cs) =
    (case follow n of
       Some (Dir entries) \<Rightarrow> (case map_of entries c of None \<Rightarrow> None | Some child \<Rightarrow> lstat child cs)
     | _ \<Rightarrow> None)"

definition stat :: "node \<Rightarrow> path \<Rightarrow> node option" where
  "stat fs p = (case lstat fs p of None \<Rightarrow> None | Some n \<Rightarrow> follow n)"

text \<open>\<^verbatim>\<open>Path.exists\<close>, \<^verbatim>\<open>Path.is_file\<close>, \<^verbatim>\<open>Path.is_dir\<close> (all three follow links) and \<^verbatim>\<open>Path.is_symlink\<close>.\<close>

definition exists :: "node \<Rightarrow> path \<Rightarrow> bool" where
  "exists fs p = (stat fs p \<noteq> None)"

definition is_file :: "node \<Rightarrow> path \<Rightarrow> bool" where
  "is_file fs p = (case stat fs p of Some (File r b) \<Rightarrow> True | _ \<Rightarrow> False)"

definition is_dir :: "node \<Rightarrow> path \<Rightarrow> bool" where
  "is_dir fs p = (case stat fs p of Some (Dir es) \<Rightarrow> True | _ \<Rightarrow> False)"

definition is_symlink :: "node \<Rightarrow> path \<Rightarrow> bool" where
  "is_symlink fs p = (case lstat fs p of Some (Symlink t r) \<Rightarrow> True | _ \<Rightarrow> False)"

text \<open>The entry stored in the tree itself at a path: no link is followed.\<close>

fun entry :: "node \<Rightarrow> path \<Rightarrow> node option" where
  "entry n [] = Some n"
| "entry (Dir entries) (c # cs) =
    (case map_of entries c of None \<Rightarrow> None | Some child \<Rightarrow> entry child cs)"
| "entry (File r b) (c # cs) = None"
| "entry (Symlink t r) (c # cs) = None"

text \<open>\<^verbatim>\<open>os.path.basename\<close> of a path, and of a link-target string.\<close>

definition basename :: "path \<Rightarrow> name" where
  "basename p = (if p = [] then [] else last p)"

definition basename_str :: "string \<Rightarrow> name" where
  "basename_str t = rev (takeWhile (\<lambda>c. c \<noteq> CHR ''/'') (rev t))"

text \<open>The base name of the path \<^verbatim>\<open>Path.resolve\<close> gives for a link: that of the last link of the chain.\<close>

fun real_name :: "node \<Rightarrow> name" where
  "real_name (Symlink t (Some (Symlink t' r))) = real_name (Symlink t' r)"
| "real_name (Symlink t r) = basename_str t"
| "real_name n = []"

subsection \<open>Writing into a tree\<close>

text \<open>The entries of a directory in name order, one entry for each name.\<close>

definition listing :: "(name \<times> node) list \<Rightarrow> (name \<times> node) list" where
  "listing entries =
     List.map_filter (\<lambda>c. map_option (Pair c) (map_of entries c))
       (sorted_list_of_set (set (map fst entries)))"

definition set_entry :: "name \<Rightarrow> node option \<Rightarrow> (name \<times> node) list \<Rightarrow> (name \<times> node) list" where
  "set_entry c r entries =
     (case r of
        None \<Rightarrow> listing (filter (\<lambda>e. fst e \<noteq> c) entries)
      | Some n \<Rightarrow> listing ((c, n) # entries))"

text \<open>
  \<open>modify parents f p\<close> replaces what is at \<open>p\<close> (a node, or nothing) by what \<open>f\<close> makes of
  it.  The directories on the way must be directories of the tree; a missing one is
  created when \<open>parents\<close> is set (\<^verbatim>\<open>mkdir -p\<close>, \<^verbatim>\<open>os.makedirs\<close>) and is an error otherwise.
  No link is followed: in the target file system \<open>modify\<close> is used at a place that has been
  resolved before (\<open>locate\<close>), and a link of the staging directory leads out of the tree
  that is built, so that a write through it would not change that tree but something the
  model does not hold; such a write ends the model's run with \<open>LinkTraversal\<close>.
\<close>

fun modify :: "bool \<Rightarrow> (node option \<Rightarrow> error + node option) \<Rightarrow> path \<Rightarrow> node option \<Rightarrow>
    error + node option" where
  "modify parents f [] n = f n"
| "modify parents f (c # cs) None =
    (if parents
     then (case modify parents f cs None of
             Inl e \<Rightarrow> Inl e
           | Inr r \<Rightarrow> Inr (Some (Dir (set_entry c r []))))
     else Inl FileNotFoundError)"
| "modify parents f (c # cs) (Some (Dir entries)) =
    (case modify parents f cs (map_of entries c) of
       Inl e \<Rightarrow> Inl e
     | Inr r \<Rightarrow> Inr (Some (Dir (set_entry c r entries))))"
| "modify parents f (c # cs) (Some (File r b)) = Inl NotADirectoryError"
| "modify parents f (c # cs) (Some (Symlink t r)) = Inl LinkTraversal"

text \<open>The root of a tree cannot be removed.\<close>

definition modify_fs :: "bool \<Rightarrow> (node option \<Rightarrow> error + node option) \<Rightarrow> path \<Rightarrow> node \<Rightarrow>
    error + node" where
  "modify_fs parents f p fs =
     (case modify parents f p (Some fs) of
        Inl e \<Rightarrow> Inl e
      | Inr None \<Rightarrow> Inl OSError
      | Inr (Some fs') \<Rightarrow> Inr fs')"

text \<open>\<^verbatim>\<open>Path.mkdir(parents=True, exist_ok=True)\<close> in the staging directory.\<close>

definition mkdir_parents :: "path \<Rightarrow> node \<Rightarrow> error + node" where
  "mkdir_parents p fs =
     (if is_dir fs p then Inr fs
      else modify_fs True
             (\<lambda>n. case n of None \<Rightarrow> Inr (Some (Dir [])) | Some x \<Rightarrow> Inl FileExistsError) p fs)"

text \<open>
  Creating a regular file at \<open>p\<close>, or overwriting the one that is there, which the
  process must be allowed to write (\<^verbatim>\<open>open(dst, 'wb')\<close>).
\<close>

definition write_file :: "path \<Rightarrow> node \<Rightarrow> node \<Rightarrow> error + node" where
  "write_file p new fs =
     modify_fs False
       (\<lambda>n. case n of
               None \<Rightarrow> Inr (Some new)
             | Some (File m b) \<Rightarrow> if may_write m then Inr (Some new) else Inl PermissionError
             | Some (Dir es) \<Rightarrow> Inl IsADirectoryError
             | Some (Symlink t r) \<Rightarrow> Inl LinkTraversal) p fs"

text \<open>
  \<^verbatim>\<open>shutil.copy2(src, dst)\<close>.  The source is given by what its path resolves to (the result
  of \<open>stat\<close>) and by its base name: when \<open>dst\<close> is a directory the file is copied into it
  under that name.  Content and metadata (the mode) are copied, so the copy is the node
  itself.
\<close>

definition copy2 :: "node option \<Rightarrow> name \<Rightarrow> path \<Rightarrow> node \<Rightarrow> error + node" where
  "copy2 src src_name dst fs =
     (case src of
        None \<Rightarrow> Inl FileNotFoundError
      | Some (Symlink t r) \<Rightarrow> Inl FileNotFoundError
      | Some (Dir es) \<Rightarrow> Inl IsADirectoryError
      | Some (File r b) \<Rightarrow>
          if \<not> may_read r then Inl PermissionError
          else if is_dir fs dst
          then (if src_name = [] then Inl IsADirectoryError
                else write_file (dst @ [src_name]) (File r b) fs)
          else write_file dst (File r b) fs)"

text \<open>
  What \<^verbatim>\<open>shutil.copytree\<close> (with its default \<^verbatim>\<open>symlinks=False\<close>) makes of a tree: every link
  is replaced by a copy of what it resolves to.  A dangling link and an unreadable file
  make \<^verbatim>\<open>copytree\<close> raise \<^verbatim>\<open>shutil.Error\<close>.
\<close>

fun resolve_tree :: "node \<Rightarrow> error + node"
  and resolve_entries :: "(name \<times> node) list \<Rightarrow> error + (name \<times> node) list" where
  "resolve_tree (File r b) = (if may_read r then Inr (File r b) else Inl ShutilError)"
| "resolve_tree (Symlink t None) = Inl ShutilError"
| "resolve_tree (Symlink t (Some n)) = resolve_tree n"
| "resolve_tree (Dir entries) =
     (case resolve_entries entries of Inl e \<Rightarrow> Inl e | Inr es \<Rightarrow> Inr (Dir (listing es)))"
| "resolve_entries [] = Inr []"
| "resolve_entries ((c, n) # entries) =
     (case resolve_tree n of
        Inl e \<Rightarrow> Inl e
      | Inr n' \<Rightarrow>
          (case resolve_entries entries of Inl e \<Rightarrow> Inl e | Inr es \<Rightarrow> Inr ((c, n') # es)))"

text \<open>
  \<^verbatim>\<open>shutil.copytree(src, dst)\<close>: \<open>src\<close> must be a directory, \<open>dst\<close> must not exist; the
  directories above \<open>dst\<close> are created as needed.
\<close>

definition copytree :: "node option \<Rightarrow> path \<Rightarrow> node \<Rightarrow> error + node" where
  "copytree src dst fs =
     (case src of
        None \<Rightarrow> Inl FileNotFoundError
      | Some (Symlink t r) \<Rightarrow> Inl FileNotFoundError
      | Some (File r b) \<Rightarrow> Inl NotADirectoryError
      | Some (Dir es) \<Rightarrow>
          modify_fs True
            (\<lambda>n. case n of
                    Some x \<Rightarrow> Inl FileExistsError
                  | None \<Rightarrow> (case resolve_tree (Dir es) of Inl e \<Rightarrow> Inl e | Inr d \<Rightarrow> Inr (Some d)))
            dst fs)"

text \<open>
  \<^verbatim>\<open>os.symlink(target, dst)\<close>; \<open>referent\<close> is what a link with this target resolves to at
  the place where it is created.
\<close>

definition os_symlink :: "string \<Rightarrow> node option \<Rightarrow> path \<Rightarrow> node \<Rightarrow> error + node" where
  "os_symlink target referent dst fs =
     modify_fs False
       (\<lambda>n. case n of None \<Rightarrow> Inr (Some (Symlink target referent)) | Some x \<Rightarrow> Inl FileExistsError)
       dst fs"

section \<open>The target file system\<close>

text \<open>
  \<^verbatim>\<open>deploy\<close> and \<^verbatim>\<open>clean\<close> of the local adapter change the file system they read, and through
  a link one object is reached by several paths.  For the target file system a path is
  therefore resolved against the tree itself, as the kernel does it: component by
  component from the root, \<^verbatim>\<open>.\<close> staying in the directory reached, \<^verbatim>\<open>..\<close> going to the one
  above it, and a link replaced by the components of its target string, which start
  from the root when the string begins with a slash and from the directory of the link
  otherwise.  The tree is the whole file system, so the paths are absolute.
\<close>

fun components :: "string \<Rightarrow> name \<Rightarrow> path" where
  "components [] cur = (if cur = [] then [] else [cur])"
| "components (x # xs) cur =
     (if x = CHR ''/''
      then (if cur = [] then components xs [] else cur # components xs [])
      else components xs (cur @ [x]))"

definition split_path :: "string \<Rightarrow> path" where
  "split_path t = components t []"

definition is_abs :: "string \<Rightarrow> bool" where
  "is_abs t = (take 1 t = ''/'')"

text \<open>The number of links the kernel follows in one resolution before it gives up (\<^verbatim>\<open>ELOOP\<close>).\<close>

definition symloop_max :: nat where
  "symloop_max = 40"

text \<open>
  \<open>resolve k fs P cs\<close>: from the directory at the place \<open>P\<close> of the tree (a path on which
  there is no link), walk the components \<open>cs\<close>, with \<open>k\<close> links left to follow.  The result
  is the place of the object reached, every link followed, the last one included.
\<close>

function resolve :: "nat \<Rightarrow> node \<Rightarrow> path \<Rightarrow> path \<Rightarrow> error + path" where
  "resolve k fs P [] = Inr P"
| "resolve k fs P (c # cs) =
    (case entry fs P of
       Some (Dir es) \<Rightarrow>
         if c = ''.'' then resolve k fs P cs
         else if c = ''..'' then resolve k fs (butlast P) cs
         else (case map_of es c of
                 None \<Rightarrow> Inl FileNotFoundError
               | Some (Symlink t r) \<Rightarrow>
                   (case k of
                      0 \<Rightarrow> Inl OSError
                    | Suc k' \<Rightarrow>
                        if t = [] then Inl FileNotFoundError
                        else resolve k' fs (if is_abs t then [] else P) (split_path t @ cs))
               | Some x \<Rightarrow> resolve k fs (P @ [c]) cs)
     | Some (File m b) \<Rightarrow> Inl NotADirectoryError
     | _ \<Rightarrow> Inl FileNotFoundError)"
  by pat_completeness auto
termination
  by (relation "measures [\<lambda>(k, fs, P, cs). k, \<lambda>(k, fs, P, cs). length cs]") auto

text \<open>
  The place of the entry a path names, the last component not followed when it is a link
  (\<^verbatim>\<open>os.lstat\<close>, \<^verbatim>\<open>os.unlink\<close>, \<^verbatim>\<open>os.mkdir\<close>): the directory above is resolved, and must be a
  directory.
\<close>

definition locate :: "node \<Rightarrow> path \<Rightarrow> error + path" where
  "locate fs p =
     (if p = [] \<or> last p = ''.'' \<or> last p = ''..'' then resolve symloop_max fs [] p
      else case resolve symloop_max fs [] (butlast p) of
             Inl e \<Rightarrow> Inl e
           | Inr P \<Rightarrow>
               (case entry fs P of
                  Some (Dir es) \<Rightarrow> Inr (P @ [last p])
                | Some (File m b) \<Rightarrow> Inl NotADirectoryError
                | _ \<Rightarrow> Inl FileNotFoundError))"

text \<open>\<^verbatim>\<open>os.lstat\<close> and \<^verbatim>\<open>os.stat\<close> on the target file system.\<close>

definition os_lstat :: "node \<Rightarrow> path \<Rightarrow> error + node" where
  "os_lstat fs p =
     (case locate fs p of
        Inl e \<Rightarrow> Inl e
      | Inr P \<Rightarrow> (case entry fs P of None \<Rightarrow> Inl FileNotFoundError | Some n \<Rightarrow> Inr n))"

definition os_stat :: "node \<Rightarrow> path \<Rightarrow> error + node" where
  "os_stat fs p =
     (case resolve symloop_max fs [] p of
        Inl e \<Rightarrow> Inl e
      | Inr P \<Rightarrow> (case entry fs P of None \<Rightarrow> Inl FileNotFoundError | Some n \<Rightarrow> Inr n))"

text \<open>
  \<^verbatim>\<open>Path.exists\<close> and \<^verbatim>\<open>Path.is_dir\<close> on the target file system.  They call \<^verbatim>\<open>os.stat\<close> and
  answer \<^verbatim>\<open>False\<close> to a missing path, a path through a file and a cycle of links, which
  are the ways \<open>os_stat\<close> fails.
\<close>

definition exists_store :: "node \<Rightarrow> path \<Rightarrow> bool" where
  "exists_store fs p = (case os_stat fs p of Inl e \<Rightarrow> False | Inr n \<Rightarrow> True)"

definition is_dir_store :: "node \<Rightarrow> path \<Rightarrow> bool" where
  "is_dir_store fs p = (case os_stat fs p of Inr (Dir es) \<Rightarrow> True | _ \<Rightarrow> False)"

text \<open>
  \<^verbatim>\<open>shutil.rmtree(p)\<close>: refuses a symbolic link (\<^verbatim>\<open>OSError\<close>), a missing path and a path
  that is not a directory; it removes the directory with all it holds, and follows no
  link below it.
\<close>

definition rmtree :: "path \<Rightarrow> node \<Rightarrow> error + node" where
  "rmtree p fs =
     (case os_lstat fs p of
        Inl e \<Rightarrow> Inl e
      | Inr (Symlink t r) \<Rightarrow> Inl OSError
      | Inr (File m b) \<Rightarrow> Inl NotADirectoryError
      | Inr (Dir es) \<Rightarrow>
          (case locate fs p of Inl e \<Rightarrow> Inl e | Inr P \<Rightarrow> modify_fs False (\<lambda>n. Inr None) P fs))"

text \<open>\<^verbatim>\<open>Path.unlink()\<close>: removes a file, or a link (the link, not what it leads to).\<close>

definition unlink :: "path \<Rightarrow> node \<Rightarrow> error + node" where
  "unlink p fs =
     (case os_lstat fs p of
        Inl e \<Rightarrow> Inl e
      | Inr (Dir es) \<Rightarrow> Inl IsADirectoryError
      | Inr n \<Rightarrow>
          (case locate fs p of Inl e \<Rightarrow> Inl e | Inr P \<Rightarrow> modify_fs False (\<lambda>n. Inr None) P fs))"

text \<open>\<^verbatim>\<open>os.mkdir(p)\<close>: the directory above must exist, and nothing may be at \<open>p\<close>, not even a link.\<close>

definition os_mkdir :: "path \<Rightarrow> node \<Rightarrow> error + node" where
  "os_mkdir p fs =
     (case locate fs p of
        Inl e \<Rightarrow> Inl e
      | Inr P \<Rightarrow>
          (case entry fs P of
             Some x \<Rightarrow> Inl FileExistsError
           | None \<Rightarrow> modify_fs False (\<lambda>n. Inr (Some (Dir []))) P fs))"

text \<open>
  \<^verbatim>\<open>Path.mkdir(parents=True, exist_ok=True)\<close>, as \<^verbatim>\<open>pathlib\<close> has it: \<^verbatim>\<open>os.mkdir\<close>; on
  \<^verbatim>\<open>FileNotFoundError\<close> the same for the directory above, and then \<^verbatim>\<open>os.mkdir\<close> again; any
  other error is let pass when the path is a directory.
\<close>

function mkdir_store :: "path \<Rightarrow> node \<Rightarrow> error + node" where
  "mkdir_store p fs =
     (case os_mkdir p fs of
        Inr fs1 \<Rightarrow> Inr fs1
      | Inl e \<Rightarrow>
          if e = FileNotFoundError
          then (if p = [] then Inl e
                else (case mkdir_store (butlast p) fs of
                        Inl e1 \<Rightarrow> Inl e1
                      | Inr fs1 \<Rightarrow>
                          (case os_mkdir p fs1 of
                             Inr fs2 \<Rightarrow> Inr fs2
                           | Inl e2 \<Rightarrow>
                               if e2 \<noteq> FileNotFoundError \<and> is_dir_store fs1 p then Inr fs1
                               else Inl e2)))
          else if is_dir_store fs p then Inr fs else Inl e)"
  by pat_completeness auto
termination
  by (relation "measure (\<lambda>(p, fs). length p)") auto

declare mkdir_store.simps [simp del]

text \<open>
  \<^verbatim>\<open>os.makedirs(p)\<close>, with which \<^verbatim>\<open>shutil.copytree\<close> makes its destination: the directories
  above are made when they do not exist, and \<open>p\<close> itself must not exist.
\<close>

function makedirs :: "path \<Rightarrow> node \<Rightarrow> error + node" where
  "makedirs p fs =
     (if p \<noteq> [] \<and> \<not> exists_store fs (butlast p)
      then (case makedirs (butlast p) fs of
              Inl e \<Rightarrow> if e = FileExistsError then os_mkdir p fs else Inl e
            | Inr fs1 \<Rightarrow> os_mkdir p fs1)
      else os_mkdir p fs)"
  by pat_completeness auto
termination
  by (relation "measure (\<lambda>(p, fs). length p)") auto

declare makedirs.simps [simp del]

text \<open>
  \<^verbatim>\<open>shutil.copytree(src, dst)\<close> into the target file system: \<open>src\<close> is what the source path
  resolves to in the staging directory; the copy (\<open>resolve_tree\<close>) is put in the place of
  the directory \<^verbatim>\<open>os.makedirs\<close> has made.
\<close>

definition copytree_store :: "node option \<Rightarrow> path \<Rightarrow> node \<Rightarrow> error + node" where
  "copytree_store src dst fs =
     (case src of
        None \<Rightarrow> Inl FileNotFoundError
      | Some (Symlink t r) \<Rightarrow> Inl FileNotFoundError
      | Some (File m b) \<Rightarrow> Inl NotADirectoryError
      | Some (Dir es) \<Rightarrow>
          (case makedirs dst fs of
             Inl e \<Rightarrow> Inl e
           | Inr fs1 \<Rightarrow>
               (case resolve_tree (Dir es) of
                  Inl e \<Rightarrow> Inl e
                | Inr d \<Rightarrow>
                    (case locate fs1 dst of
                       Inl e \<Rightarrow> Inl e
                     | Inr P \<Rightarrow> modify_fs False (\<lambda>n. Inr (Some d)) P fs1))))"

text \<open>
  The place \<^verbatim>\<open>open(p, 'wb')\<close> writes to: the links at the last component are followed, a
  dangling one as well (the file is then created where the link leads).
\<close>

function write_place :: "nat \<Rightarrow> node \<Rightarrow> path \<Rightarrow> error + path" where
  "write_place k fs p =
     (case locate fs p of
        Inl e \<Rightarrow> Inl e
      | Inr P \<Rightarrow>
          (case entry fs P of
             Some (Symlink t r) \<Rightarrow>
               (case k of
                  0 \<Rightarrow> Inl OSError
                | Suc k' \<Rightarrow>
                    if t = [] then Inl FileNotFoundError
                    else write_place k' fs ((if is_abs t then [] else butlast P) @ split_path t))
           | _ \<Rightarrow> Inr P))"
  by pat_completeness auto
termination
  by (relation "measure (\<lambda>(k, fs, p). k)") auto

declare write_place.simps [simp del]

text \<open>
  \<^verbatim>\<open>shutil.copy2(src, dst)\<close> into the target file system: into \<open>dst\<close> under the name of the
  source when \<open>dst\<close> is a directory (\<^verbatim>\<open>os.path.isdir\<close>), to \<open>dst\<close> otherwise.
\<close>

definition copy2_store :: "node option \<Rightarrow> name \<Rightarrow> path \<Rightarrow> node \<Rightarrow> error + node" where
  "copy2_store src src_name dst fs =
     (case src of
        None \<Rightarrow> Inl FileNotFoundError
      | Some (Symlink t r) \<Rightarrow> Inl FileNotFoundError
      | Some (Dir es) \<Rightarrow> Inl IsADirectoryError
      | Some (File m b) \<Rightarrow>
          if \<not> may_read m then Inl PermissionError
          else if is_dir_store fs dst \<and> src_name = [] then Inl IsADirectoryError
          else (case write_place symloop_max fs
                       (if is_dir_store fs dst then dst @ [src_name] else dst) of
                  Inl e \<Rightarrow> Inl e
                | Inr P \<Rightarrow> write_file P (File m b) fs))"

section \<open>The local adapter (\<^verbatim>\<open>adapters/local.py\<close>)\<close>

text \<open>
  \<^verbatim>\<open>LocalEnvironment.deploy\<close>.  \<open>staging_dir\<close> is the staging tree (its root is the staging
  directory), which \<open>deploy\<close> only reads; \<open>fs\<close> is the target file system, \<open>target\<close> the path
  of the target directory in it.  \<open>deploy_loop\<close> is the \<^verbatim>\<open>for sp in sync_paths\<close> loop with
  its accumulator \<open>deployed\<close>.
\<close>

fun deploy_loop :: "node \<Rightarrow> path \<Rightarrow> path list \<Rightarrow> node \<Rightarrow> path list \<Rightarrow>
    error + node \<times> path list" where
  "deploy_loop staging_dir target [] fs deployed = Inr (fs, deployed)"
| "deploy_loop staging_dir target (sp # sync_paths) fs deployed =
    (if \<not> exists staging_dir sp
     then deploy_loop staging_dir target sync_paths fs deployed
     else
       let dst = target @ sp
       in if is_dir staging_dir sp
          then (case (if exists_store fs dst then rmtree dst fs else Inr fs) of
                  Inl e \<Rightarrow> Inl e
                | Inr fs1 \<Rightarrow>
                    (case copytree_store (stat staging_dir sp) dst fs1 of
                       Inl e \<Rightarrow> Inl e
                     | Inr fs2 \<Rightarrow> deploy_loop staging_dir target sync_paths fs2 (deployed @ [sp])))
          else (case mkdir_store (butlast dst) fs of
                  Inl e \<Rightarrow> Inl e
                | Inr fs1 \<Rightarrow>
                    (case copy2_store (stat staging_dir sp) (basename sp) dst fs1 of
                       Inl e \<Rightarrow> Inl e
                     | Inr fs2 \<Rightarrow> deploy_loop staging_dir target sync_paths fs2 (deployed @ [sp]))))"

definition deploy :: "node \<Rightarrow> path \<Rightarrow> path list \<Rightarrow> node \<Rightarrow> error + node \<times> path list" where
  "deploy staging_dir target_dir sync_paths fs =
     (case mkdir_store target_dir fs of
        Inl e \<Rightarrow> Inl e
      | Inr fs1 \<Rightarrow> deploy_loop staging_dir target_dir sync_paths fs1 [])"

text \<open>\<^verbatim>\<open>LocalEnvironment.clean\<close>\<close>

fun clean :: "path \<Rightarrow> path list \<Rightarrow> node \<Rightarrow> error + node" where
  "clean target_dir [] fs = Inr fs"
| "clean target_dir (sp # sync_paths) fs =
    (let p = target_dir @ sp
     in if is_dir_store fs p
        then (case rmtree p fs of Inl e \<Rightarrow> Inl e | Inr fs1 \<Rightarrow> clean target_dir sync_paths fs1)
        else if exists_store fs p
        then (case unlink p fs of Inl e \<Rightarrow> Inl e | Inr fs1 \<Rightarrow> clean target_dir sync_paths fs1)
        else clean target_dir sync_paths fs)"

section \<open>The staging engine (\<^verbatim>\<open>sync.py\<close>, \<^verbatim>\<open>prepare_staging\<close>)\<close>

text \<open>
  What a link re-created in the staging directory resolves to depends on the rest of the
  machine's file system and on where \<^verbatim>\<open>mkdtemp\<close> put the staging directory.  It is a
  parameter of the model: \<open>relink dst target\<close> is the object a link with this target
  resolves to when it stands at \<open>dst\<close> of the staging directory.
\<close>

type_synonym relink_fn = "path \<Rightarrow> string \<Rightarrow> node option"

text \<open>A measure for the recursion through a directory tree.\<close>

fun node_size :: "node \<Rightarrow> nat"
  and entries_size :: "(name \<times> node) list \<Rightarrow> nat" where
  "node_size (File r b) = 1"
| "node_size (Symlink t None) = 1"
| "node_size (Symlink t (Some n)) = Suc (node_size n)"
| "node_size (Dir entries) = Suc (entries_size entries)"
| "entries_size [] = 0"
| "entries_size ((c, n) # entries) = Suc (node_size n + entries_size entries)"

lemma entries_size_filter: "entries_size (filter P entries) \<le> k + entries_size entries"
proof (induction entries)
  case Nil
  show ?case by simp
next
  case (Cons e entries)
  then show ?case by (cases e) auto
qed

text \<open>
  \<^verbatim>\<open>_copy_dir(src, dst, resolve_symlinks)\<close>.  \<open>src\<close> is the object the source path resolves
  to.  \<open>copy_items\<close> is the loop over \<^verbatim>\<open>src.iterdir()\<close>; a directory lists every name
  once, so after an item the loop goes on with the items of other names.
\<close>

function (sequential) copy_dir :: "relink_fn \<Rightarrow> node \<Rightarrow> path \<Rightarrow> bool \<Rightarrow> node \<Rightarrow> error + node"
  and copy_items :: "relink_fn \<Rightarrow> (name \<times> node) list \<Rightarrow> path \<Rightarrow> bool \<Rightarrow> node \<Rightarrow> error + node"
  where
  "copy_dir relink (Symlink t (Some n)) dst resolve_symlinks staging =
     copy_dir relink n dst resolve_symlinks staging"
| "copy_dir relink (Symlink t None) dst resolve_symlinks staging =
     (case mkdir_parents dst staging of
        Inl e \<Rightarrow> Inl e
      | Inr staging1 \<Rightarrow> Inl FileNotFoundError)"
| "copy_dir relink (File r b) dst resolve_symlinks staging =
     (case mkdir_parents dst staging of
        Inl e \<Rightarrow> Inl e
      | Inr staging1 \<Rightarrow> Inl NotADirectoryError)"
| "copy_dir relink (Dir items) dst resolve_symlinks staging =
     (case mkdir_parents dst staging of
        Inl e \<Rightarrow> Inl e
      | Inr staging1 \<Rightarrow> copy_items relink items dst resolve_symlinks staging1)"
| "copy_items relink [] dst resolve_symlinks staging = Inr staging"
| "copy_items relink ((item_name, item) # items) dst resolve_symlinks staging =
     (let item_dst = dst @ [item_name];
          rest = filter (\<lambda>e. fst e \<noteq> item_name) items
      in case item of
           Symlink t r \<Rightarrow>
             if resolve_symlinks
             then (case follow item of
                     Some (Dir es) \<Rightarrow>
                       (case copytree (follow item) item_dst staging of
                          Inl e \<Rightarrow> Inl e
                        | Inr staging1 \<Rightarrow> copy_items relink rest dst resolve_symlinks staging1)
                   | Some (File r' b) \<Rightarrow>
                       (case copy2 (follow item) (real_name item) item_dst staging of
                          Inl e \<Rightarrow> Inl e
                        | Inr staging1 \<Rightarrow> copy_items relink rest dst resolve_symlinks staging1)
                   | _ \<Rightarrow> copy_items relink rest dst resolve_symlinks staging)
             else (case os_symlink t (relink item_dst t) item_dst staging of
                     Inl e \<Rightarrow> Inl e
                   | Inr staging1 \<Rightarrow> copy_items relink rest dst resolve_symlinks staging1)
         | Dir es \<Rightarrow>
             (case copy_dir relink item item_dst resolve_symlinks staging of
                Inl e \<Rightarrow> Inl e
              | Inr staging1 \<Rightarrow> copy_items relink rest dst resolve_symlinks staging1)
         | File r b \<Rightarrow>
             (case copy2 (Some item) item_name item_dst staging of
                Inl e \<Rightarrow> Inl e
              | Inr staging1 \<Rightarrow> copy_items relink rest dst resolve_symlinks staging1))"
  by pat_completeness auto
termination
  by (relation "measure (\<lambda>x. case x of
          Inl (relink, src, dst, rs, staging) \<Rightarrow> node_size src
        | Inr (relink, items, dst, rs, staging) \<Rightarrow> entries_size items)")
     (auto simp: less_Suc_eq_le intro: le_SucI entries_size_filter entries_size_filter [of _ _ 0, simplified])

text \<open>
  The \<^verbatim>\<open>for sp in sync_paths\<close> loop of \<^verbatim>\<open>prepare_staging\<close>.  \<open>fs\<close> is the file system the
  source directory lives in, \<open>staging\<close> the staging tree; \<^verbatim>\<open>dst = staging / sp\<close> is the path
  \<open>sp\<close> of the staging tree.
\<close>

fun staging_loop :: "relink_fn \<Rightarrow> node \<Rightarrow> path \<Rightarrow> path list \<Rightarrow> bool \<Rightarrow> node \<Rightarrow> error + node" where
  "staging_loop relink fs source_dir [] resolve_symlinks staging = Inr staging"
| "staging_loop relink fs source_dir (sp # sync_paths) resolve_symlinks staging =
    (let src = source_dir @ sp
     in if \<not> exists fs src
        then staging_loop relink fs source_dir sync_paths resolve_symlinks staging
        else
          let dst = sp
          in if is_file fs src \<or> (is_symlink fs src \<and> \<not> is_dir fs src)
             then
               (case mkdir_parents (butlast dst) staging of
                  Inl e \<Rightarrow> Inl e
                | Inr staging1 \<Rightarrow>
                    (case
                       (if resolve_symlinks \<and> is_symlink fs src
                        then (if is_dir fs src
                              then copytree (stat fs src) dst staging1
                              else copy2 (stat fs src)
                                     (case lstat fs src of Some l \<Rightarrow> real_name l | None \<Rightarrow> [])
                                     dst staging1)
                        else if is_symlink fs src \<and> \<not> resolve_symlinks
                        then (case lstat fs src of
                                Some (Symlink t r) \<Rightarrow> os_symlink t (relink dst t) dst staging1
                              | _ \<Rightarrow> Inl OSError)
                        else copy2 (stat fs src) (basename src) dst staging1)
                     of
                       Inl e \<Rightarrow> Inl e
                     | Inr staging2 \<Rightarrow>
                         staging_loop relink fs source_dir sync_paths resolve_symlinks staging2))
             else if is_dir fs src
             then
               (case stat fs src of
                  None \<Rightarrow> Inl FileNotFoundError
                | Some d \<Rightarrow>
                    (case copy_dir relink d dst resolve_symlinks staging of
                       Inl e \<Rightarrow> Inl e
                     | Inr staging1 \<Rightarrow>
                         staging_loop relink fs source_dir sync_paths resolve_symlinks staging1))
             else staging_loop relink fs source_dir sync_paths resolve_symlinks staging)"

text \<open>\<^verbatim>\<open>tempfile.mkdtemp\<close> gives a new, empty directory.\<close>

definition prepare_staging :: "relink_fn \<Rightarrow> node \<Rightarrow> path \<Rightarrow> path list \<Rightarrow> bool \<Rightarrow> error + node" where
  "prepare_staging relink fs source_dir sync_paths resolve_symlinks =
     staging_loop relink fs source_dir sync_paths resolve_symlinks (Dir [])"

section \<open>The tree collector (\<^verbatim>\<open>sync.py\<close>, \<^verbatim>\<open>collect_files\<close>)\<close>

text \<open>
  \<^verbatim>\<open>Path.read_text()\<close> opens the file (following links), reads its bytes and decodes them.
  The codec is a parameter: \<open>decode\<close> gives the text of a byte string, or \<open>None\<close> when
  the bytes are not a text in the encoding.
\<close>

type_synonym decode_fn = "string \<Rightarrow> string option"

definition read_text :: "decode_fn \<Rightarrow> node option \<Rightarrow> error + string" where
  "read_text decode f =
     (case f of
        None \<Rightarrow> Inl FileNotFoundError
      | Some (Symlink t r) \<Rightarrow> Inl FileNotFoundError
      | Some (Dir es) \<Rightarrow> Inl IsADirectoryError
      | Some (File r b) \<Rightarrow>
          if \<not> may_read r then Inl PermissionError
          else (case decode b of None \<Rightarrow> Inl UnicodeDecodeError | Some text \<Rightarrow> Inr text))"

text \<open>\<^verbatim>\<open>files[key] = value\<close> on a dictionary that keeps the order of insertion.\<close>

fun dict_set :: "'k \<Rightarrow> 'v \<Rightarrow> ('k \<times> 'v) list \<Rightarrow> ('k \<times> 'v) list" where
  "dict_set key v [] = [(key, v)]"
| "dict_set key v ((k, x) # d) = (if k = key then (key, v) # d else (k, x) # dict_set key v d)"

text \<open>\<^verbatim>\<open>f.relative_to(base_dir)\<close>\<close>

definition relative_to :: "path \<Rightarrow> path \<Rightarrow> error + path" where
  "relative_to f base_dir =
     (if prefix base_dir f then Inr (drop (length base_dir) f) else Inl ValueError)"

text \<open>
  Which directories the process may search and list is a parameter: \<open>access p\<close> says so
  for the directory at the path \<open>p\<close>.  \<^verbatim>\<open>os.stat\<close> fails with \<^verbatim>\<open>EACCES\<close> when a directory
  on the way to the path may not be searched, and \<^verbatim>\<open>Path.exists\<close> and \<^verbatim>\<open>Path.is_file\<close>, which
  let pass a missing path, raise \<^verbatim>\<open>PermissionError\<close> then.
\<close>

type_synonym access_fn = "path \<Rightarrow> bool"

definition denied :: "access_fn \<Rightarrow> node \<Rightarrow> path \<Rightarrow> bool" where
  "denied access fs p = list_ex (\<lambda>q. is_dir fs q \<and> \<not> access q) (butlast (prefixes p))"

text \<open>
  \<^verbatim>\<open>src.rglob("*")\<close>: the paths, relative to \<open>src\<close>, of everything below the directory; the
  walk descends into the directories of the tree and not into links to directories, and
  it passes over a directory that it may not list (\<^verbatim>\<open>pathlib\<close> catches the
  \<^verbatim>\<open>PermissionError\<close> of \<^verbatim>\<open>os.scandir\<close>).  \<open>cur\<close> is the path of the directory listed.
\<close>

function rglob_entries :: "access_fn \<Rightarrow> path \<Rightarrow> (name \<times> node) list \<Rightarrow> path list" where
  "rglob_entries access cur [] = []"
| "rglob_entries access cur ((c, n) # entries) =
     [c] # map ((#) c)
             (case n of
                Dir es \<Rightarrow> if access (cur @ [c]) then rglob_entries access (cur @ [c]) es else []
              | _ \<Rightarrow> [])
       @ rglob_entries access cur (filter (\<lambda>e. fst e \<noteq> c) entries)"
  by pat_completeness auto
termination
  by (relation "measure (\<lambda>(access, cur, entries). entries_size entries)")
     (auto simp: less_Suc_eq_le intro: le_SucI entries_size_filter entries_size_filter [of _ _ 0, simplified])

definition rglob :: "access_fn \<Rightarrow> path \<Rightarrow> node option \<Rightarrow> path list" where
  "rglob access src_path src =
     (case src of
        Some (Dir es) \<Rightarrow> if access src_path then rglob_entries access src_path es else []
      | _ \<Rightarrow> [])"

text \<open>
  The loop \<^verbatim>\<open>for f in sorted(src.rglob("*"))\<close>; \<open>fs\<close> is the file system that holds
  \<open>base_dir\<close>, and the paths \<open>f\<close> are paths of \<open>fs\<close>.  \<^verbatim>\<open>f.is_file()\<close> stands outside the
  \<^verbatim>\<open>try\<close>, which covers \<^verbatim>\<open>f.read_text()\<close> alone.
\<close>

fun collect_dir_loop :: "decode_fn \<Rightarrow> access_fn \<Rightarrow> node \<Rightarrow> path \<Rightarrow> path list \<Rightarrow>
    (path \<times> string) list \<Rightarrow> error + (path \<times> string) list" where
  "collect_dir_loop decode access fs base_dir [] files = Inr files"
| "collect_dir_loop decode access fs base_dir (f # fs_rest) files =
    (if denied access fs f then Inl PermissionError
     else if is_file fs f
     then (case relative_to f base_dir of
             Inl e \<Rightarrow> Inl e
           | Inr rel \<Rightarrow>
               (case read_text decode (stat fs f) of
                  Inr text \<Rightarrow> collect_dir_loop decode access fs base_dir fs_rest (dict_set rel text files)
                | Inl e \<Rightarrow>
                    if e = UnicodeDecodeError \<or> e = PermissionError
                    then collect_dir_loop decode access fs base_dir fs_rest (dict_set rel ''<binary>'' files)
                    else Inl e))
     else collect_dir_loop decode access fs base_dir fs_rest files)"

text \<open>The loop \<^verbatim>\<open>for sp in sync_paths\<close>.\<close>

fun collect_loop :: "decode_fn \<Rightarrow> access_fn \<Rightarrow> node \<Rightarrow> path \<Rightarrow> path list \<Rightarrow>
    (path \<times> string) list \<Rightarrow> error + (path \<times> string) list" where
  "collect_loop decode access fs base_dir [] files = Inr files"
| "collect_loop decode access fs base_dir (sp # sync_paths) files =
    (let src = base_dir @ sp
     in if denied access fs src then Inl PermissionError
        else if \<not> exists fs src
        then collect_loop decode access fs base_dir sync_paths files
        else if is_file fs src
        then (case read_text decode (stat fs src) of
                Inr text \<Rightarrow> collect_loop decode access fs base_dir sync_paths (dict_set sp text files)
              | Inl e \<Rightarrow>
                  if e = UnicodeDecodeError \<or> e = PermissionError
                  then collect_loop decode access fs base_dir sync_paths (dict_set sp ''<binary>'' files)
                  else Inl e)
        else if is_dir fs src
        then (case collect_dir_loop decode access fs base_dir
                     (sort (map (\<lambda>q. src @ q) (rglob access src (stat fs src)))) files of
                Inl e \<Rightarrow> Inl e
              | Inr files1 \<Rightarrow> collect_loop decode access fs base_dir sync_paths files1)
        else collect_loop decode access fs base_dir sync_paths files)"

definition collect_files :: "decode_fn \<Rightarrow> access_fn \<Rightarrow> node \<Rightarrow> path \<Rightarrow> path list \<Rightarrow>
    error + (path \<times> string) list" where
  "collect_files decode access fs base_dir sync_paths =
     collect_loop decode access fs base_dir sync_paths []"

text \<open>A codec to evaluate examples with: the bytes below 128 are the text.\<close>

definition decode_ascii :: decode_fn where
  "decode_ascii b = (if list_all (\<lambda>c. of_char c < (128::nat)) b then Some b else None)"

section \<open>The deploy flow (\<^verbatim>\<open>cli.py\<close>, \<^verbatim>\<open>install\<close>)\<close>

text \<open>
  An adapter is the pair of its \<^verbatim>\<open>clean\<close> and \<^verbatim>\<open>deploy\<close> methods, working on the state \<open>'t\<close>
  of its target.  The state of the flow is the list of the staging directories that
  exist in the temporary directory, and the state of the target.
\<close>

record 't adapter =
  adapter_clean :: "path \<Rightarrow> path list \<Rightarrow> 't \<Rightarrow> error + 't"
  adapter_deploy :: "node \<Rightarrow> path \<Rightarrow> path list \<Rightarrow> 't \<Rightarrow> error + 't \<times> path list"

record target_config =
  local_path :: path
  sync_paths :: "path list"

record env_target_config =
  target_dir :: path
  resolve_symlinks :: bool

record 't world =
  temp :: "name list"
  remote :: 't

definition local_adapter :: "node adapter" where
  "local_adapter = \<lparr>adapter_clean = clean, adapter_deploy = deploy\<rparr>"

text \<open>\<^verbatim>\<open>shutil.rmtree(staging, ignore_errors=True)\<close> on the staging directory of name \<open>d\<close>.\<close>

definition rmtree_staging :: "name \<Rightarrow> 't world \<Rightarrow> 't world" where
  "rmtree_staging d w = w\<lparr>temp := removeAll d (temp w)\<rparr>"

text \<open>
  The body of the loop over the targets of the environment, from the test of
  \<^verbatim>\<open>target.local_path.exists()\<close> on.  \<open>d\<close> is the name \<^verbatim>\<open>mkdtemp\<close> gives the staging directory.
  The result is the exception the body ends with, if any (then the exception leaves
  \<^verbatim>\<open>install\<close>), and the state at that moment; the state of the target after a failed adapter
  call is not modelled and is left as it was before the call.
\<close>

definition install_target :: "relink_fn \<Rightarrow> 't adapter \<Rightarrow> node \<Rightarrow> name \<Rightarrow> bool \<Rightarrow>
    target_config \<Rightarrow> env_target_config \<Rightarrow> 't world \<Rightarrow> (error + unit) \<times> 't world" where
  "install_target relink adapter fs d dry_run target env_target w =
     (if \<not> exists fs (local_path target) then (Inr (), w)
      else
        let w1 = w\<lparr>temp := d # temp w\<rparr>
        in case prepare_staging relink fs (local_path target) (sync_paths target)
                  (resolve_symlinks env_target) of
             Inl e \<Rightarrow> (Inl e, w1)
           | Inr staging \<Rightarrow>
               let garnish = filter (\<lambda>sp. exists staging sp) (sync_paths target)
               in if garnish = [] then (Inr (), rmtree_staging d w1)
                  else if dry_run then (Inr (), rmtree_staging d w1)
                  else
                    (case adapter_clean adapter (target_dir env_target) (sync_paths target)
                            (remote w1) of
                       Inl e \<Rightarrow> (Inl e, w1)
                     | Inr r1 \<Rightarrow>
                         (case adapter_deploy adapter staging (target_dir env_target)
                                 (sync_paths target) r1 of
                            Inl e \<Rightarrow> (Inl e, w1\<lparr>remote := r1\<rparr>)
                          | Inr (r2, deployed) \<Rightarrow>
                              (Inr (), rmtree_staging d (w1\<lparr>remote := r2\<rparr>)))))"

section \<open>Notions the properties are stated with\<close>

text \<open>
  What an entry shows of itself: a file its content, a link its target, a directory that
  it is a directory (what it contains shows at the paths below it).
\<close>

fun shallow :: "node \<Rightarrow> node" where
  "shallow (Dir es) = Dir []"
| "shallow n = n"

definition lstat_opt :: "node option \<Rightarrow> path \<Rightarrow> node option" where
  "lstat_opt n p = (case n of None \<Rightarrow> None | Some x \<Rightarrow> lstat x p)"

definition stat_opt :: "node option \<Rightarrow> path \<Rightarrow> node option" where
  "stat_opt n p = (case n of None \<Rightarrow> None | Some x \<Rightarrow> stat x p)"

text \<open>
  How an entry \<open>n\<close> of the staging tree answers to the source path \<open>p\<close> it was staged
  from: a staged file has the bytes the source path resolves to (and, when links are not
  resolved, the source entry is that file itself); a staged directory stands for a source
  directory; a staged link, which only staging without resolution makes, has the target
  string of the source link.
\<close>

definition agrees :: "bool \<Rightarrow> node \<Rightarrow> path \<Rightarrow> node \<Rightarrow> bool" where
  "agrees resolving fs p n =
     (case n of
        File r b \<Rightarrow> stat fs p = Some (File r b) \<and> (resolving \<or> lstat fs p = Some (File r b))
      | Dir es \<Rightarrow> is_dir fs p
      | Symlink t x \<Rightarrow> \<not> resolving \<and> (\<exists>r. lstat fs p = Some (Symlink t r)))"

definition mirrors :: "bool \<Rightarrow> node \<Rightarrow> path \<Rightarrow> node \<Rightarrow> bool" where
  "mirrors resolving fs source_dir staging =
     (\<forall>q n. entry staging q = Some n \<longrightarrow> agrees resolving fs (source_dir @ q) n)"

definition entry_opt :: "node option \<Rightarrow> path \<Rightarrow> node option" where
  "entry_opt n p = (case n of None \<Rightarrow> None | Some x \<Rightarrow> entry x p)"

text \<open>An entry stays what it is: a file a file, a directory a directory, a link the same link.\<close>

definition same_kind :: "node \<Rightarrow> node \<Rightarrow> bool" where
  "same_kind x x' =
     (case x of
        File r b \<Rightarrow> (\<exists>r' b'. x' = File r' b')
      | Dir es \<Rightarrow> (\<exists>es'. x' = Dir es')
      | Symlink t r \<Rightarrow> x' = x)"

definition grows :: "node option \<Rightarrow> node option \<Rightarrow> bool" where
  "grows n n' =
     ((\<forall>q x. entry_opt n q = Some x \<longrightarrow> (\<exists>x'. entry_opt n' q = Some x' \<and> same_kind x x')) \<and>
      (\<forall>q. lstat_opt n q \<noteq> None \<longrightarrow> lstat_opt n' q \<noteq> None))"

text \<open>A write that makes a new entry, or puts a file in the place of a file.\<close>

definition creating :: "(node option \<Rightarrow> error + node option) \<Rightarrow> bool" where
  "creating f =
     (\<forall>x y. f x = Inr y \<longrightarrow>
        (x = None \<and> y \<noteq> None) \<or> (\<exists>r b r' b'. x = Some (File r b) \<and> y = Some (File r' b')))"

text \<open>\<open>news st st' p\<close>: what the tree \<open>st'\<close> has and \<open>st\<close> had not lies above, at or below \<open>p\<close>.\<close>

definition news :: "node \<Rightarrow> node \<Rightarrow> path \<Rightarrow> bool" where
  "news st st' p = (\<forall>q. entry st' q \<noteq> None \<longrightarrow> entry st q \<noteq> None \<or> prefix q p \<or> prefix p q)"

section \<open>Properties of the tree differ\<close>

lemma dict_mem_map_of: "dict_mem key d \<longleftrightarrow> map_of d key \<noteq> None"
  by (simp add: dict_mem_def map_of_eq_None_iff)

lemma diff_loop_Cons:
  "diff_loop sl ud l r (p # ps) acc = diff_loop sl ud l r ps (diff_loop sl ud l r [p] acc)"
  by (simp add: Let_def)

lemma diff_loop_single_acc:
  "diff_loop sl ud l r [p] acc = acc @ diff_loop sl ud l r [p] []"
  by (simp add: Let_def)

lemma diff_loop_acc:
  "diff_loop sl ud l r ps acc = acc @ diff_loop sl ud l r ps []"
proof (induction ps arbitrary: acc)
  case Nil
  show ?case by simp
next
  case (Cons p ps)
  have "diff_loop sl ud l r (p # ps) acc = diff_loop sl ud l r [p] acc @ diff_loop sl ud l r ps []"
    using Cons.IH [of "diff_loop sl ud l r [p] acc"] by (simp only: diff_loop_Cons [of _ _ _ _ p ps])
  also have "\<dots> = acc @ diff_loop sl ud l r [p] [] @ diff_loop sl ud l r ps []"
    using diff_loop_single_acc [of sl ud l r p acc] by simp
  also have "diff_loop sl ud l r [p] [] @ diff_loop sl ud l r ps [] = diff_loop sl ud l r (p # ps) []"
    using Cons.IH [of "diff_loop sl ud l r [p] []"] by (simp only: diff_loop_Cons [of _ _ _ _ p ps])
  finally show ?case .
qed

lemma diff_loop_concat:
  "diff_loop sl ud l r ps [] = concat (map (\<lambda>p. diff_loop sl ud l r [p] []) ps)"
proof (induction ps)
  case Nil
  show ?case by simp
next
  case (Cons p ps)
  have "diff_loop sl ud l r (p # ps) [] = diff_loop sl ud l r [p] [] @ diff_loop sl ud l r ps []"
    using diff_loop_acc [of sl ud l r ps "diff_loop sl ud l r [p] []"]
    by (simp only: diff_loop_Cons [of _ _ _ _ p ps])
  with Cons show ?case by simp
qed

lemma diff_loop_same: "diff_loop sl ud s s ps acc = acc"
  by (induction ps arbitrary: acc) (simp_all add: Let_def)

lemma diff_loop_map_of:
  assumes "map_of l = map_of l'" and "map_of r = map_of r'"
  shows "diff_loop sl ud l r ps acc = diff_loop sl ud l' r' ps acc"
  using assms
  by (induction ps arbitrary: acc) (simp_all add: Let_def dict_get_def dict_mem_map_of)

lemma all_paths_map_of:
  assumes "map_of l = map_of l'" and "map_of r = map_of r'"
  shows "all_paths l r = all_paths l' r'"
proof -
  have "set (map fst l) = dom (map_of l)" "set (map fst l') = dom (map_of l')"
    "set (map fst r) = dom (map_of r)" "set (map fst r') = dom (map_of r')"
    by (simp_all add: dom_map_of_conv_image_fst)
  with assms show ?thesis by (simp add: all_paths_def)
qed

lemma all_paths_code:
  "all_paths l r = sort (remdups (map fst l @ map fst r))"
  unfolding all_paths_def by (metis set_append sorted_list_of_set_sort_remdups)

lemma all_paths_sorted: "sorted (all_paths l r) \<and> distinct (all_paths l r)"
  by (simp add: all_paths_def)

text \<open>
  C1.  The claim asks for exactly one ``local only'' record for every path present only
  in the local snapshot.  The code reads both sides with \<^verbatim>\<open>.get(path, "")\<close> and compares
  the two contents before it tests membership, so a path whose only content is the empty
  text compares equal to an absent one.  For the local snapshot \<^verbatim>\<open>{"a": ""}\<close> and the empty
  remote snapshot the code emits no record at all.
\<close>

theorem diff_trees_empty_file_unreported:
  "diff_trees one_line header_diff [(''a'', '''')] [] = []"
  by (simp add: diff_trees_def all_paths_code dict_get_def)

text \<open>
  C7.  Diffing a snapshot against itself gives the empty sequence: on every path the two
  contents read are the same, so every iteration ends at the first \<^verbatim>\<open>continue\<close>.
\<close>

theorem diff_trees_self_empty: "diff_trees sl ud s s = []"
  by (simp add: diff_trees_def diff_loop_same)

theorem diff_trees_self_empty_witness:
  "diff_trees one_line header_diff [(''b'', ''x''), (''a'', '''')] [(''b'', ''x''), (''a'', '''')] = []"
  using diff_trees_self_empty [of one_line header_diff "[(''b'', ''x''), (''a'', '''')]"] .

text \<open>
  C8.  The output of \<open>diff_trees\<close> is the concatenation, over the paths of both snapshots
  in strictly ascending lexicographic order, of the records the loop body emits for that
  path alone; and it depends only on the mappings the two snapshots represent, not on
  the order in which their entries were inserted.
\<close>

theorem diff_trees_order:
  "sorted (all_paths l r) \<and> distinct (all_paths l r) \<and>
   diff_trees sl ud l r = concat (map (\<lambda>path. diff_loop sl ud l r [path] []) (all_paths l r)) \<and>
   (\<forall>l' r'. map_of l' = map_of l \<and> map_of r' = map_of r \<longrightarrow>
      diff_trees sl ud l' r' = diff_trees sl ud l r)"
proof -
  have "diff_trees sl ud l' r' = diff_trees sl ud l r"
    if "map_of l' = map_of l" "map_of r' = map_of r" for l' r'
    using that all_paths_map_of [of l' l r' r] diff_loop_map_of [of l' l r' r]
    by (simp add: diff_trees_def)
  then show ?thesis
    using diff_loop_concat [of sl ud l r "all_paths l r"]
    by (simp add: diff_trees_def all_paths_sorted)
qed

theorem diff_trees_order_witness:
  "map_of [(''a.md'', ''1''), (''b.md'', ''2'')] = map_of [(''b.md'', ''2''), (''a.md'', ''1'')] \<and>
   map_of [(''c.md'', ''3''), (''b.md'', ''0'')] = map_of [(''b.md'', ''0''), (''c.md'', ''3'')] \<and>
   diff_trees one_line header_diff
     [(''a.md'', ''1''), (''b.md'', ''2'')] [(''c.md'', ''3''), (''b.md'', ''0'')] =
   diff_trees one_line header_diff
     [(''b.md'', ''2''), (''a.md'', ''1'')] [(''b.md'', ''0''), (''c.md'', ''3'')] \<and>
   diff_trees one_line header_diff
     [(''b.md'', ''2''), (''a.md'', ''1'')] [(''b.md'', ''0''), (''c.md'', ''3'')] =
   [''  + a.md (local only)'', ''--- remote/b.md+++ local/b.md'', ''  - c.md (remote only)'']"
proof -
  have l: "map_of [(''a.md'', ''1''), (''b.md'', ''2'')] = map_of [(''b.md'', ''2''), (''a.md'', ''1'')]"
    by (rule ext) simp
  have r: "map_of [(''c.md'', ''3''), (''b.md'', ''0'')] = map_of [(''b.md'', ''0''), (''c.md'', ''3'')]"
    by (rule ext) simp
  have v: "diff_trees one_line header_diff
     [(''b.md'', ''2''), (''a.md'', ''1'')] [(''b.md'', ''0''), (''c.md'', ''3'')] =
   [''  + a.md (local only)'', ''--- remote/b.md+++ local/b.md'', ''  - c.md (remote only)'']"
    by (simp add: diff_trees_def all_paths_code dict_get_def dict_mem_def one_line_def
        header_diff_def Let_def)
  from l r v show ?thesis
    using diff_trees_order [of "[(''b.md'', ''2''), (''a.md'', ''1'')]"
        "[(''b.md'', ''0''), (''c.md'', ''3'')]" one_line header_diff]
    by simp
qed

section \<open>Evaluating the model\<close>

lemma listing_code:
  "listing es =
     List.map_filter (\<lambda>c. map_option (Pair c) (map_of es c)) (sort (remdups (map fst es)))"
  by (simp only: listing_def sorted_list_of_set_sort_remdups)

lemmas fs_eval =
  lstat.simps exists_def is_file_def is_dir_def is_symlink_def stat_def basename_def
  mkdir_parents_def write_file_def copy2_def copytree_def os_symlink_def
  modify_fs_def set_entry_def listing_code Let_def

lemmas store_eval =
  split_path_def is_abs_def symloop_max_def locate_def os_lstat_def os_stat_def exists_store_def
  is_dir_store_def rmtree_def unlink_def os_mkdir_def mkdir_store.simps makedirs.simps
  copytree_store_def write_place.simps copy2_store_def

section \<open>Directories and their entries\<close>

lemma map_of_map_filter:
  "map_of (List.map_filter (\<lambda>c. map_option (Pair c) (m c)) ks) k = (if k \<in> set ks then m k else None)"
proof (induction ks)
  case Nil
  show ?case by (simp add: List.map_filter_simps)
next
  case (Cons a ks)
  then show ?case by (cases "m a") (auto simp: List.map_filter_simps)
qed

lemma map_of_listing: "map_of (listing es) = map_of es"
proof
  fix k
  show "map_of (listing es) k = map_of es k"
  proof (cases "k \<in> fst ` set es")
    case True
    then show ?thesis by (simp add: listing_def map_of_map_filter)
  next
    case False
    then have "map_of es k = None" by (simp add: map_of_eq_None_iff)
    with False show ?thesis by (simp add: listing_def map_of_map_filter)
  qed
qed

lemma listing_cong: "map_of es = map_of es' \<Longrightarrow> listing es = listing es'"
proof -
  assume eq: "map_of es = map_of es'"
  have "set (map fst es) = dom (map_of es)" "set (map fst es') = dom (map_of es')"
    by (simp_all add: dom_map_of_conv_image_fst)
  with eq have "set (map fst es) = set (map fst es')" by (simp only:)
  with eq show ?thesis by (simp only: listing_def)
qed

lemma listing_idem: "listing (listing es) = listing es"
  by (rule listing_cong) (rule map_of_listing)

lemma map_of_filter_fst: "map_of (filter (\<lambda>e. fst e \<noteq> c) es) = (map_of es)(c := None)"
  by (induction es) auto

lemma map_of_set_entry: "map_of (set_entry c r es) = (map_of es)(c := r)"
  by (cases r) (auto simp: set_entry_def map_of_listing map_of_filter_fst)

lemma set_entry_cong: "map_of es = map_of es' \<Longrightarrow> set_entry c r es = set_entry c r es'"
proof -
  assume eq: "map_of es = map_of es'"
  show ?thesis
  proof (cases r)
    case None
    have "map_of (filter (\<lambda>e. fst e \<noteq> c) es) = map_of (filter (\<lambda>e. fst e \<noteq> c) es')"
      using eq by (simp add: map_of_filter_fst)
    then have "listing (filter (\<lambda>e. fst e \<noteq> c) es) = listing (filter (\<lambda>e. fst e \<noteq> c) es')"
      by (rule listing_cong)
    then show ?thesis using None by (simp add: set_entry_def)
  next
    case (Some n)
    have "map_of ((c, n) # es) = map_of ((c, n) # es')" using eq by simp
    then have "listing ((c, n) # es) = listing ((c, n) # es')"
      by (rule listing_cong)
    then show ?thesis using Some by (simp add: set_entry_def)
  qed
qed

lemma set_entry_listing: "set_entry c r es = listing (case r of None \<Rightarrow> filter (\<lambda>e. fst e \<noteq> c) es | Some n \<Rightarrow> (c, n) # es)"
  by (cases r) (simp_all add: set_entry_def)

lemma listing_set_entry: "listing (set_entry c r es) = set_entry c r es"
  by (simp add: set_entry_listing listing_idem)

lemma set_entry_set_entry: "set_entry c r (set_entry c r' es) = set_entry c r es"
proof -
  have "map_of (set_entry c r' es) c = r'" by (simp add: map_of_set_entry)
  have m: "(map_of (set_entry c r' es))(c := r) = (map_of es)(c := r)"
    by (simp add: map_of_set_entry)
  have "set_entry c r (set_entry c r' es) = listing (set_entry c r (set_entry c r' es))"
    by (simp add: listing_set_entry)
  also have "\<dots> = listing (set_entry c r es)"
    by (rule listing_cong) (simp add: map_of_set_entry)
  finally show ?thesis by (simp add: listing_set_entry)
qed

lemma set_entry_same: "listing es = es \<Longrightarrow> map_of es c = r \<Longrightarrow> set_entry c r es = es"
proof -
  assume l: "listing es = es" and m: "map_of es c = r"
  have "set_entry c r es = listing (set_entry c r es)" by (simp add: listing_set_entry)
  also have "\<dots> = listing es"
    using m by (intro listing_cong) (simp add: map_of_set_entry fun_upd_idem_iff)
  finally show ?thesis using l by simp
qed

lemma follow_idem: "follow n = Some m \<Longrightarrow> follow m = Some m"
  by (induction n rule: follow.induct) auto

lemma follow_not_link: "follow n \<noteq> Some (Symlink t r)"
  by (induction n rule: follow.induct) auto

lemma lstat_Dir_Cons [simp]: "lstat (Dir es) (c # cs) = lstat_opt (map_of es c) cs"
  by (simp add: lstat_opt_def split: option.splits)

lemma lstat_File_Cons [simp]: "lstat (File r b) (c # cs) = None"
  by simp

lemma lstat_Cons: "lstat n (c # cs) =
    (case follow n of
       Some (Dir entries) \<Rightarrow> lstat_opt (map_of entries c) cs
     | _ \<Rightarrow> None)"
  by (simp add: lstat_opt_def split: option.splits node.splits)

declare lstat.simps(2) [simp del]

lemma lstat_opt_None [simp]: "lstat_opt None p = None"
  by (simp add: lstat_opt_def)

lemma lstat_opt_Some [simp]: "lstat_opt (Some n) p = lstat n p"
  by (simp add: lstat_opt_def)

lemma stat_opt_None [simp]: "stat_opt None p = None"
  by (simp add: stat_opt_def)

lemma stat_opt_Some [simp]: "stat_opt (Some n) p = stat n p"
  by (simp add: stat_opt_def)

lemma stat_Dir_Cons [simp]: "stat (Dir es) (c # cs) = stat_opt (map_of es c) cs"
  by (cases "map_of es c") (simp_all add: stat_def)

lemma lstat_append: "lstat n (p @ r) = lstat_opt (lstat n p) r"
proof (induction p arbitrary: n)
  case Nil
  show ?case by simp
next
  case (Cons c p)
  show ?case
    by (auto simp: Cons lstat_Cons lstat_opt_def split: option.splits node.splits)
qed

lemma lstat_follow: "r \<noteq> [] \<Longrightarrow> follow n = Some m \<Longrightarrow> lstat n r = lstat m r"
  by (cases r) (auto simp: follow_idem lstat_Cons)

lemma stat_append: "stat n (p @ r) = stat_opt (stat n p) r"
proof (cases r)
  case Nil
  show ?thesis
  proof (cases "stat n p")
    case None
    with Nil show ?thesis by simp
  next
    case (Some m)
    then have "follow m = Some m" by (auto simp: stat_def follow_idem split: option.splits)
    with Some Nil show ?thesis by (simp add: stat_def)
  qed
next
  case (Cons c cs)
  show ?thesis
  proof (cases "lstat n p")
    case None
    then show ?thesis by (simp add: stat_def lstat_append)
  next
    case (Some x)
    show ?thesis
    proof (cases "follow x")
      case None
      then show ?thesis using Some Cons by (simp add: stat_def lstat_append lstat_Cons)
    next
      case (Some m)
      with \<open>lstat n p = Some x\<close> Cons lstat_follow [of r x m] show ?thesis
        by (simp add: stat_def lstat_append)
    qed
  qed
qed

text \<open>What a modification leaves alone.\<close>

lemma modify_frame:
  "modify mk f p n = Inr n' \<Longrightarrow> \<not> prefix p q \<Longrightarrow> \<not> prefix q p \<Longrightarrow> lstat_opt n' q = lstat_opt n q"
proof (induction p arbitrary: q n n')
  case Nil
  then show ?case by simp
next
  case (Cons c cs)
  from Cons.prems obtain d q' where q: "q = d # q'" by (cases q) auto
  show ?case
  proof (cases n)
    case None
    with Cons.prems(1) obtain r where mk and r: "modify mk f cs None = Inr r"
      and n': "n' = Some (Dir (set_entry c r []))"
      by (auto split: if_splits sum.splits)
    show ?thesis
    proof (cases "d = c")
      case True
      with Cons.prems q have "\<not> prefix cs q'" "\<not> prefix q' cs" by auto
      from Cons.IH [OF r this] have "lstat_opt r q' = None" by simp
      with True None n' q show ?thesis by (simp add: map_of_set_entry)
    next
      case False
      with None n' q show ?thesis by (simp add: map_of_set_entry)
    qed
  next
    case (Some x)
    with Cons.prems(1) obtain es r where x: "x = Dir es"
      and r: "modify mk f cs (map_of es c) = Inr r"
      and n': "n' = Some (Dir (set_entry c r es))"
      by (cases x) (auto split: sum.splits)
    show ?thesis
    proof (cases "d = c")
      case True
      with Cons.prems q have "\<not> prefix cs q'" "\<not> prefix q' cs" by auto
      from Cons.IH [OF r this] have "lstat_opt r q' = lstat_opt (map_of es c) q'" .
      with True Some x n' q show ?thesis by (simp add: map_of_set_entry)
    next
      case False
      with Some x n' q show ?thesis by (simp add: map_of_set_entry)
    qed
  qed
qed

text \<open>Above the place of a modification there are directories, before (unless they were created) and after.\<close>

lemma modify_above:
  "modify mk f p n = Inr n' \<Longrightarrow> strict_prefix q p \<Longrightarrow>
     (\<exists>es. lstat_opt n' q = Some (Dir es)) \<and> (lstat_opt n q = None \<or> (\<exists>es. lstat_opt n q = Some (Dir es)))"
proof (induction p arbitrary: q n n')
  case Nil
  then show ?case by simp
next
  case (Cons c cs)
  show ?case
  proof (cases n)
    case None
    with Cons.prems(1) obtain r where r: "modify mk f cs None = Inr r"
      and n': "n' = Some (Dir (set_entry c r []))"
      by (auto split: if_splits sum.splits)
    show ?thesis
    proof (cases q)
      case Nil
      with None n' show ?thesis by simp
    next
      case (Cons d q')
      with Cons.prems(2) have d: "d = c" and sp: "strict_prefix q' cs" by auto
      from Cons.IH [OF r sp] d Cons None n' show ?thesis
        by (simp add: map_of_set_entry)
    qed
  next
    case (Some x)
    with Cons.prems(1) obtain es r where x: "x = Dir es"
      and r: "modify mk f cs (map_of es c) = Inr r"
      and n': "n' = Some (Dir (set_entry c r es))"
      by (cases x) (auto split: sum.splits)
    show ?thesis
    proof (cases q)
      case Nil
      with Some x n' show ?thesis by simp
    next
      case (Cons d q')
      with Cons.prems(2) have d: "d = c" and sp: "strict_prefix q' cs" by auto
      from Cons.IH [OF r sp] d Cons Some x n' show ?thesis
        by (simp add: map_of_set_entry)
    qed
  qed
qed

lemma modify_False_above:
  "modify False f p n = Inr n' \<Longrightarrow> strict_prefix q p \<Longrightarrow> \<exists>es. lstat_opt n q = Some (Dir es)"
proof (induction p arbitrary: q n n')
  case Nil
  then show ?case by simp
next
  case (Cons c cs)
  from Cons.prems(1) obtain es r where n: "n = Some (Dir es)"
    and r: "modify False f cs (map_of es c) = Inr r"
    by (cases n; cases "the n") (auto split: sum.splits)
  show ?case
  proof (cases q)
    case Nil
    with n show ?thesis by simp
  next
    case (Cons d q')
    with Cons.prems(2) have d: "d = c" and sp: "strict_prefix q' cs" by auto
    from Cons.IH [OF r sp] d Cons n show ?thesis
      by simp
  qed
qed

lemma modify_shallow_frame:
  assumes "modify False f p n = Inr n'" and "\<not> prefix p q"
  shows "map_option shallow (lstat_opt n' q) = map_option shallow (lstat_opt n q)"
proof (cases "prefix q p")
  case True
  with assms(2) have "strict_prefix q p" by (auto simp: strict_prefix_def)
  from modify_above [OF assms(1) this] modify_False_above [OF assms(1) this]
  show ?thesis by auto
next
  case False
  with modify_frame [OF assms(1) assms(2)] show ?thesis by simp
qed

lemma modify_remove_below:
  "modify mk (\<lambda>x. Inr None) p n = Inr n' \<Longrightarrow> lstat_opt n' (p @ r) = None"
proof (induction p arbitrary: n n')
  case Nil
  then show ?case by simp
next
  case (Cons c cs)
  show ?case
  proof (cases n)
    case None
    with Cons.prems obtain r0 where r: "modify mk (\<lambda>x. Inr None) cs None = Inr r0"
      and n': "n' = Some (Dir (set_entry c r0 []))"
      by (auto split: if_splits sum.splits)
    from Cons.IH [OF r] n' show ?thesis by (simp add: map_of_set_entry)
  next
    case (Some x)
    with Cons.prems obtain es r0 where x: "x = Dir es"
      and r: "modify mk (\<lambda>x. Inr None) cs (map_of es c) = Inr r0"
      and n': "n' = Some (Dir (set_entry c r0 es))"
      by (cases x) (auto split: sum.splits)
    from Cons.IH [OF r] n' show ?thesis by (simp add: map_of_set_entry)
  qed
qed

lemma modify_remove_stat:
  "modify False (\<lambda>x. Inr None) p n = Inr n' \<Longrightarrow> stat_opt n q = None \<Longrightarrow> stat_opt n' q = None"
proof (induction p arbitrary: q n n')
  case Nil
  then show ?case by simp
next
  case (Cons c cs)
  from Cons.prems(1) obtain es r where n: "n = Some (Dir es)"
    and r: "modify False (\<lambda>x. Inr None) cs (map_of es c) = Inr r"
    and n': "n' = Some (Dir (set_entry c r es))"
    by (cases n; cases "the n") (auto split: sum.splits)
  show ?case
  proof (cases q)
    case Nil
    with Cons.prems(2) n show ?thesis by (simp add: stat_def)
  next
    case (Cons d q')
    show ?thesis
    proof (cases "d = c")
      case True
      with Cons.prems(2) n Cons have "stat_opt (map_of es c) q' = None"
        by simp
      from Cons.IH [OF r this] True Cons n' show ?thesis
        by (simp add: map_of_set_entry)
    next
      case False
      with Cons.prems(2) n Cons n' show ?thesis
        by (simp add: map_of_set_entry)
    qed
  qed
qed

section \<open>Trees and what is written into them\<close>

lemma is_dir_exists: "is_dir fs p \<Longrightarrow> exists fs p"
  by (auto simp: is_dir_def exists_def split: option.splits)

lemma modify_fs_Inr:
  "modify_fs mk f p fs = Inr fs' \<longleftrightarrow> modify mk f p (Some fs) = Inr (Some fs')"
  by (auto simp: modify_fs_def split: sum.splits option.splits)

lemma modify_Cons_Some_Inr:
  "modify mk f (c # cs) (Some x) = Inr n' \<Longrightarrow>
   \<exists>es r. x = Dir es \<and> modify mk f cs (map_of es c) = Inr r \<and> n' = Some (Dir (set_entry c r es))"
  by (cases x) (auto split: sum.splits)

lemma modify_Cons_None_Inr:
  "modify mk f (c # cs) None = Inr n' \<Longrightarrow>
   mk \<and> (\<exists>r. modify mk f cs None = Inr r \<and> n' = Some (Dir (set_entry c r [])))"
  by (auto split: if_splits sum.splits)

lemma resolve_tree_follow:
  "resolve_tree n = Inr d \<Longrightarrow> \<exists>m. follow n = Some m \<and> resolve_tree m = Inr d"
  by (induction n rule: follow.induct) auto

lemma resolve_entries_map_of:
  "resolve_entries es = Inr es' \<Longrightarrow> map_of es c = Some ch \<Longrightarrow>
   \<exists>ch'. resolve_tree ch = Inr ch' \<and> map_of es' c = Some ch'"
proof (induction es arbitrary: es')
  case Nil
  then show ?case by simp
next
  case (Cons e es)
  obtain k n where e: "e = (k, n)" by (cases e)
  from Cons.prems(1) e obtain n' es0 where n': "resolve_tree n = Inr n'"
    and es0: "resolve_entries es = Inr es0" and es': "es' = (k, n') # es0"
    by (auto split: sum.splits)
  show ?case
  proof (cases "k = c")
    case True
    with Cons.prems(2) e n' es' show ?thesis by simp
  next
    case False
    with Cons.prems(2) e have "map_of es c = Some ch" by simp
    from Cons.IH [OF es0 this] False es' show ?thesis by simp
  qed
qed

lemma resolve_tree_Dir:
  "resolve_tree (Dir es) = Inr d \<Longrightarrow> \<exists>es'. resolve_entries es = Inr es' \<and> d = Dir (listing es')"
  by (auto split: sum.splits)

lemma resolve_tree_File: "resolve_tree (File r b) = Inr d \<Longrightarrow> may_read r \<and> d = File r b"
  by (auto split: if_splits)

lemma stat_Nil: "stat n [] = follow n"
  by (simp add: stat_def)

lemma stat_follow_idem: "stat n p = Some m \<Longrightarrow> follow m = Some m"
  by (auto simp: stat_def follow_idem split: option.splits)

lemma stat_Cons:
  "stat n (c # cs) = (case follow n of Some (Dir es) \<Rightarrow> stat_opt (map_of es c) cs | _ \<Rightarrow> None)"
  by (auto simp: stat_def lstat_Cons stat_opt_def lstat_opt_def split: option.splits node.splits)

lemma stat_not_link: "stat n p \<noteq> Some (Symlink t r)"
  by (auto simp: stat_def follow_not_link split: option.splits)

lemma resolve_tree_kind:
  "resolve_tree m = Inr v \<Longrightarrow> follow m = Some m \<Longrightarrow>
   (case m of File r b \<Rightarrow> v = m | Dir es \<Rightarrow> (\<exists>es'. v = Dir es') | Symlink t x \<Rightarrow> False)"
  by (cases m) (auto split: sum.splits if_splits simp: follow_not_link)

lemma modify_applied: "modify mk f p n = Inr r \<Longrightarrow> \<exists>x y. f x = Inr y"
proof (induction p arbitrary: n r)
  case Nil
  then show ?case by auto
next
  case (Cons c cs)
  show ?case
  proof (cases n)
    case None
    from modify_Cons_None_Inr [OF Cons.prems [unfolded None]] Cons.IH show ?thesis by blast
  next
    case (Some x)
    from modify_Cons_Some_Inr [OF Cons.prems [unfolded Some]] Cons.IH show ?thesis by blast
  qed
qed

section \<open>Lemmas about staging\<close>
lemma entry_opt_None [simp]: "entry_opt None p = None"
  by (simp add: entry_opt_def)

lemma entry_opt_Some [simp]: "entry_opt (Some n) p = entry n p"
  by (simp add: entry_opt_def)

lemma entry_Dir_Cons: "entry (Dir es) (c # cs) = entry_opt (map_of es c) cs"
  by (simp add: entry_opt_def)

lemma entry_Cons_cases:
  "entry n (c # cs) = (case n of Dir es \<Rightarrow> entry_opt (map_of es c) cs | _ \<Rightarrow> None)"
  by (cases n) (simp_all add: entry_opt_def)

lemma entry_append: "entry n (p @ r) = entry_opt (entry n p) r"
proof (induction p arbitrary: n)
  case Nil
  show ?case by simp
next
  case (Cons c p)
  show ?case by (cases n) (auto simp: Cons entry_opt_def split: option.splits)
qed

lemma entry_lstat: "entry n p = Some x \<Longrightarrow> lstat n p = Some x"
proof (induction p arbitrary: n)
  case Nil
  then show ?case by simp
next
  case (Cons c p)
  then show ?case by (cases n) (auto simp: lstat_opt_def split: option.splits)
qed

text \<open>The entries after a modification.\<close>

lemma modify_entry_frame:
  "modify mk f p n = Inr n' \<Longrightarrow> \<not> prefix p q \<Longrightarrow> \<not> prefix q p \<Longrightarrow> entry_opt n' q = entry_opt n q"
proof (induction p arbitrary: q n n')
  case Nil
  then show ?case by simp
next
  case (Cons c cs)
  from Cons.prems obtain d q' where q: "q = d # q'" by (cases q) auto
  show ?case
  proof (cases n)
    case None
    from modify_Cons_None_Inr [OF Cons.prems(1) [unfolded None]]
    obtain r where r: "modify mk f cs None = Inr r" and n': "n' = Some (Dir (set_entry c r []))"
      by blast
    show ?thesis
    proof (cases "d = c")
      case True
      with Cons.prems q have "\<not> prefix cs q'" "\<not> prefix q' cs" by auto
      from Cons.IH [OF r this] have "entry_opt r q' = None" by simp
      with True None n' q show ?thesis by (simp add: entry_opt_def map_of_set_entry)
    next
      case False
      with None n' q show ?thesis by (simp add: entry_opt_def map_of_set_entry)
    qed
  next
    case (Some x)
    from modify_Cons_Some_Inr [OF Cons.prems(1) [unfolded Some]]
    obtain es r where x: "x = Dir es" and r: "modify mk f cs (map_of es c) = Inr r"
      and n': "n' = Some (Dir (set_entry c r es))"
      by blast
    show ?thesis
    proof (cases "d = c")
      case True
      with Cons.prems q have "\<not> prefix cs q'" "\<not> prefix q' cs" by auto
      from Cons.IH [OF r this] have "entry_opt r q' = entry_opt (map_of es c) q'" .
      with True Some x n' q show ?thesis by (simp add: entry_opt_def map_of_set_entry)
    next
      case False
      with Some x n' q show ?thesis by (simp add: entry_opt_def map_of_set_entry)
    qed
  qed
qed

lemma modify_entry_above:
  "modify mk f p n = Inr n' \<Longrightarrow> strict_prefix q p \<Longrightarrow>
     (\<exists>es. entry_opt n' q = Some (Dir es)) \<and> (entry_opt n q = None \<or> (\<exists>es. entry_opt n q = Some (Dir es))) \<and>
     (lstat_opt n q = entry_opt n q)"
proof (induction p arbitrary: q n n')
  case Nil
  then show ?case by simp
next
  case (Cons c cs)
  show ?case
  proof (cases n)
    case None
    from modify_Cons_None_Inr [OF Cons.prems(1) [unfolded None]]
    obtain r where r: "modify mk f cs None = Inr r" and n': "n' = Some (Dir (set_entry c r []))"
      by blast
    show ?thesis
    proof (cases q)
      case Nil
      with None n' show ?thesis by simp
    next
      case (Cons d q')
      with Cons.prems(2) have d: "d = c" and sp: "strict_prefix q' cs" by auto
      from Cons.IH [OF r sp] d Cons None n' show ?thesis
        by (simp add: entry_opt_def map_of_set_entry)
    qed
  next
    case (Some x)
    from modify_Cons_Some_Inr [OF Cons.prems(1) [unfolded Some]]
    obtain es r where x: "x = Dir es" and r: "modify mk f cs (map_of es c) = Inr r"
      and n': "n' = Some (Dir (set_entry c r es))"
      by blast
    show ?thesis
    proof (cases q)
      case Nil
      with Some x n' show ?thesis by simp
    next
      case (Cons d q')
      with Cons.prems(2) have d: "d = c" and sp: "strict_prefix q' cs" by auto
      from Cons.IH [OF r sp] d Cons Some x n' show ?thesis
        by (simp add: entry_opt_def map_of_set_entry)
    qed
  qed
qed

lemma modify_entry_at:
  "modify mk f p n = Inr n' \<Longrightarrow> f (entry_opt n p) = Inr (entry_opt n' p) \<and> lstat_opt n p = entry_opt n p
     \<and> lstat_opt n' p = entry_opt n' p"
proof (induction p arbitrary: n n')
  case Nil
  then show ?case by (cases n; cases n') (auto simp: entry_opt_def lstat_opt_def)
next
  case (Cons c cs)
  show ?case
  proof (cases n)
    case None
    from modify_Cons_None_Inr [OF Cons.prems(1) [unfolded None]]
    obtain r where r: "modify mk f cs None = Inr r" and n': "n' = Some (Dir (set_entry c r []))"
      by blast
    from Cons.IH [OF r] None n' show ?thesis
      by (simp add: entry_opt_def map_of_set_entry)
  next
    case (Some x)
    from modify_Cons_Some_Inr [OF Cons.prems(1) [unfolded Some]]
    obtain es r where x: "x = Dir es" and r: "modify mk f cs (map_of es c) = Inr r"
      and n': "n' = Some (Dir (set_entry c r es))"
      by blast
    from Cons.IH [OF r] Some x n' show ?thesis
      by (simp add: entry_opt_def map_of_set_entry)
  qed
qed


lemma mkdir_parents_is_dir: "mkdir_parents p fs = Inr fs1 \<Longrightarrow> is_dir fs1 p"
proof (cases "is_dir fs p")
  case True
  assume "mkdir_parents p fs = Inr fs1"
  with True show ?thesis by (simp add: mkdir_parents_def)
next
  case False
  assume "mkdir_parents p fs = Inr fs1"
  with False have m: "modify True (\<lambda>n. case n of None \<Rightarrow> Inr (Some (Dir [])) | Some x \<Rightarrow> Inl FileExistsError)
      p (Some fs) = Inr (Some fs1)"
    by (simp add: mkdir_parents_def modify_fs_Inr)
  from modify_entry_at [OF m] have "entry fs1 p = Some (Dir [])"
    by (auto split: option.splits)
  from entry_lstat [OF this] show ?thesis by (simp add: is_dir_def stat_def)
qed

lemma entry_opt_append: "entry_opt n (p @ r) = entry_opt (entry_opt n p) r"
  by (cases n) (simp_all add: entry_append)

lemma lstat_opt_append: "lstat_opt n (p @ r) = lstat_opt (lstat_opt n p) r"
  by (cases n) (simp_all add: lstat_append)

lemma entry_below_file: "entry (File r b) q = Some x \<Longrightarrow> q = [] \<and> x = File r b"
  by (cases q) auto

lemma entry_below_link: "entry (Symlink t r) q = Some x \<Longrightarrow> q = [] \<and> x = Symlink t r"
  by (cases q) auto

lemma lstat_below_file: "lstat (File r b) q = Some y \<Longrightarrow> q = []"
  by (cases q) auto

lemma same_kind_refl: "same_kind x x"
  by (cases x) (simp_all add: same_kind_def)

lemma same_kind_trans: "same_kind x y \<Longrightarrow> same_kind y z \<Longrightarrow> same_kind x z"
  by (cases x) (auto simp: same_kind_def)

lemma grows_refl: "grows n n"
  by (simp add: grows_def same_kind_refl)

lemma grows_trans: "grows a b \<Longrightarrow> grows b c \<Longrightarrow> grows a c"
  unfolding grows_def by (meson same_kind_trans)

lemma modify_grows:
  assumes m: "modify mk f p n = Inr n'" and c: "creating f"
  shows "grows n n'"
  unfolding grows_def
proof (intro conjI allI impI)
  fix q x
  assume e: "entry_opt n q = Some x"
  show "\<exists>x'. entry_opt n' q = Some x' \<and> same_kind x x'"
  proof (cases "prefix p q")
    case True
    then obtain r where q: "q = p @ r" by (auto simp: prefix_def)
    from e q obtain y where y: "entry_opt n p = Some y" and r: "entry y r = Some x"
      by (cases "entry_opt n p") (auto simp: entry_opt_append)
    from modify_entry_at [OF m] y have "f (Some y) = Inr (entry_opt n' p)" by simp
    with c obtain r0 b0 r1 b1 where y': "y = File r0 b0" and z: "entry_opt n' p = Some (File r1 b1)"
      unfolding creating_def by blast
    from r y' have "r = []" "x = File r0 b0" by (auto dest: entry_below_file)
    with q z show ?thesis by (simp add: same_kind_def)
  next
    case False
    show ?thesis
    proof (cases "prefix q p")
      case True
      with False have "strict_prefix q p" by (auto simp: strict_prefix_def)
      from modify_entry_above [OF m this] e show ?thesis by (auto simp: same_kind_def)
    next
      case nq: False
      from modify_entry_frame [OF m False nq] e show ?thesis by (simp add: same_kind_refl)
    qed
  qed
next
  fix q
  assume e: "lstat_opt n q \<noteq> None"
  show "lstat_opt n' q \<noteq> None"
  proof (cases "prefix p q")
    case True
    then obtain r where q: "q = p @ r" by (auto simp: prefix_def)
    from e q obtain y where y: "lstat_opt n p = Some y" and r: "lstat y r \<noteq> None"
      by (cases "lstat_opt n p") (auto simp: lstat_opt_append)
    from modify_entry_at [OF m] y have fy: "f (Some y) = Inr (entry_opt n' p)"
      and l': "lstat_opt n' p = entry_opt n' p" by simp_all
    from fy c obtain r0 b0 r1 b1 where y': "y = File r0 b0" and z: "entry_opt n' p = Some (File r1 b1)"
      unfolding creating_def by blast
    from r y' have "r = []" by (auto dest: lstat_below_file)
    with q z l' show ?thesis by simp
  next
    case False
    show ?thesis
    proof (cases "prefix q p")
      case True
      with False have "strict_prefix q p" by (auto simp: strict_prefix_def)
      from modify_entry_above [OF m this] obtain es where es: "entry_opt n' q = Some (Dir es)" by blast
      then obtain x' where "n' = Some x'" by (cases n') auto
      with es show ?thesis by (auto dest: entry_lstat)
    next
      case nq: False
      from modify_frame [OF m False nq] e show ?thesis by simp
    qed
  qed
qed

lemma lstat_parent_is_dir:
  assumes "lstat fs (a @ e) \<noteq> None" and "e \<noteq> []"
  shows "is_dir fs a"
proof -
  from assms(2) obtain c cs where e: "e = c # cs" by (cases e) auto
  from assms(1) obtain m where m: "lstat fs a = Some m" and l: "lstat m (c # cs) \<noteq> None"
    unfolding e by (cases "lstat fs a") (auto simp: lstat_append)
  from l obtain es where "follow m = Some (Dir es)"
    by (auto simp: lstat_Cons split: option.splits node.splits)
  with m show ?thesis by (simp add: is_dir_def stat_def)
qed

lemma stat_lstat_None: "lstat fs p = None \<Longrightarrow> stat fs p = None"
  by (simp add: stat_def)

lemma is_dir_lstat: "is_dir fs p \<Longrightarrow> lstat fs p \<noteq> None"
  by (auto simp: is_dir_def stat_def split: option.splits)

lemma is_dir_ancestor: "is_dir fs (a @ e) \<Longrightarrow> is_dir fs a"
proof (cases "e = []")
  case True
  assume "is_dir fs (a @ e)"
  with True show ?thesis by simp
next
  case False
  assume "is_dir fs (a @ e)"
  from lstat_parent_is_dir [OF is_dir_lstat [OF this] False] show ?thesis .
qed

lemma staging_write:
  assumes m: "modify mk f p (Some st) = Inr (Some st')" and c: "creating f"
    and mir: "mirrors rs fs src st"
    and new: "\<And>z q x. f (entry st p) = Inr (Some z) \<Longrightarrow> entry z q = Some x \<Longrightarrow> agrees rs fs (src @ p @ q) x"
    and anc: "\<And>q. strict_prefix q p \<Longrightarrow> is_dir fs (src @ q)"
  shows "mirrors rs fs src st' \<and> grows (Some st) (Some st')"
proof
  show "grows (Some st) (Some st')" by (rule modify_grows [OF m c])
  show "mirrors rs fs src st'"
    unfolding mirrors_def
  proof (intro allI impI)
    fix q x
    assume e: "entry st' q = Some x"
    show "agrees rs fs (src @ q) x"
    proof (cases "prefix p q")
      case True
      then obtain r where q: "q = p @ r" by (auto simp: prefix_def)
      from e q obtain z where z: "entry st' p = Some z" and r: "entry z r = Some x"
        by (cases "entry st' p") (auto simp: entry_append)
      from modify_entry_at [OF m] z have "f (entry st p) = Inr (Some z)" by simp
      from new [OF this r] q show ?thesis by simp
    next
      case False
      show ?thesis
      proof (cases "prefix q p")
        case True
        with False have sp: "strict_prefix q p" by (auto simp: strict_prefix_def)
        from modify_entry_above [OF m sp] e obtain es where "x = Dir es" by auto
        with anc [OF sp] show ?thesis by (simp add: agrees_def)
      next
        case nq: False
        from modify_entry_frame [OF m False nq] e have "entry st q = Some x" by simp
        with mir show ?thesis by (simp add: mirrors_def)
      qed
    qed
  qed
qed

lemma resolve_entries_map_of_conv:
  "resolve_entries es = Inr es' \<Longrightarrow> map_of es' c = Some ch' \<Longrightarrow>
   \<exists>ch. map_of es c = Some ch \<and> resolve_tree ch = Inr ch'"
proof (induction es arbitrary: es')
  case Nil
  then show ?case by simp
next
  case (Cons e es)
  obtain k n where e: "e = (k, n)" by (cases e)
  from Cons.prems(1) e obtain n' es1 where n': "resolve_tree n = Inr n'"
    and es1: "resolve_entries es = Inr es1" and es': "es' = (k, n') # es1"
    by (auto split: sum.splits)
  show ?case
  proof (cases "c = k")
    case True
    with Cons.prems(2) es' n' e show ?thesis by simp
  next
    case False
    with Cons.prems(2) es' have "map_of es1 c = Some ch'" by simp
    from Cons.IH [OF es1 this] False e show ?thesis by simp
  qed
qed

lemma resolve_entry:
  "resolve_tree m = Inr v \<Longrightarrow> entry v q = Some x \<Longrightarrow>
   \<exists>m'. stat m q = Some m' \<and> resolve_tree m' = Inr x"
proof (induction q arbitrary: m v x)
  case Nil
  from resolve_tree_follow [OF Nil(1)] Nil(2) show ?case by (auto simp: stat_Nil)
next
  case (Cons c q)
  from resolve_tree_follow [OF Cons.prems(1)] obtain m0 where m0: "follow m = Some m0"
    and r0: "resolve_tree m0 = Inr v" by blast
  from Cons.prems(2) obtain vs ch' where v: "v = Dir vs" and ch': "map_of vs c = Some ch'"
    and x: "entry ch' q = Some x"
    by (cases v) (auto split: option.splits)
  from r0 v m0 obtain es where m0': "m0 = Dir es"
    by (cases m0) (auto simp: follow_not_link split: if_splits dest: follow_idem)
  from resolve_tree_Dir [OF r0 [unfolded m0']] v obtain es' where
    es': "resolve_entries es = Inr es'" and vs: "vs = listing es'" by auto
  from ch' vs have "map_of es' c = Some ch'" by (simp add: map_of_listing)
  from resolve_entries_map_of_conv [OF es' this] obtain ch where
    ch: "map_of es c = Some ch" and rch: "resolve_tree ch = Inr ch'" by blast
  from Cons.IH [OF rch x] obtain m' where "stat ch q = Some m'" "resolve_tree m' = Inr x" by blast
  with m0 m0' ch show ?case by (simp add: stat_Cons)
qed

lemma mirrorsD: "mirrors rs fs src st \<Longrightarrow> entry st q = Some n \<Longrightarrow> agrees rs fs (src @ q) n"
  by (simp add: mirrors_def)

lemma agrees_Dir: "agrees rs fs p (Dir es) = is_dir fs p"
  by (simp add: agrees_def)

lemma agrees_File:
  "agrees rs fs p (File r b) = (stat fs p = Some (File r b) \<and> (rs \<or> lstat fs p = Some (File r b)))"
  by (simp add: agrees_def)

lemma agrees_Symlink:
  "agrees rs fs p (Symlink t x) = (\<not> rs \<and> (\<exists>r. lstat fs p = Some (Symlink t r)))"
  by (simp add: agrees_def)

lemma creating_mkdir:
  "creating (\<lambda>n. case n of None \<Rightarrow> Inr (Some (Dir [])) | Some x \<Rightarrow> Inl FileExistsError)"
  by (auto simp: creating_def split: option.splits)

lemma creating_write:
  "creating (\<lambda>n. case n of
               None \<Rightarrow> Inr (Some (File r b))
             | Some (File r' b') \<Rightarrow> if may_write r' then Inr (Some (File r b)) else Inl PermissionError
             | Some (Dir es) \<Rightarrow> Inl IsADirectoryError
             | Some (Symlink t x) \<Rightarrow> Inl LinkTraversal)"
  by (auto simp: creating_def split: option.splits node.splits if_splits)

lemma creating_copytree:
  "creating (\<lambda>n. case n of
                    Some x \<Rightarrow> Inl FileExistsError
                  | None \<Rightarrow> (case resolve_tree (Dir es) of Inl e \<Rightarrow> Inl e | Inr d \<Rightarrow> Inr (Some d)))"
  by (auto simp: creating_def split: option.splits sum.splits simp del: resolve_tree.simps)

lemma creating_symlink:
  "creating (\<lambda>n. case n of None \<Rightarrow> Inr (Some (Symlink t x)) | Some y \<Rightarrow> Inl FileExistsError)"
  by (auto simp: creating_def split: option.splits)

lemma strict_prefix_is_dir:
  assumes "lstat fs (src @ p) \<noteq> None" and "strict_prefix q p"
  shows "is_dir fs (src @ q)"
proof -
  from assms(2) obtain e where "p = q @ e" "e \<noteq> []" by (auto simp: strict_prefix_def prefix_def)
  with assms(1) lstat_parent_is_dir [of fs "src @ q" e] show ?thesis by simp
qed

lemma mkdir_parents_staging:
  assumes m: "mkdir_parents p st = Inr st'" and mir: "mirrors rs fs src st"
    and d: "is_dir fs (src @ p)"
  shows "mirrors rs fs src st' \<and> grows (Some st) (Some st') \<and> lstat st' p \<noteq> None"
proof -
  from mkdir_parents_is_dir [OF m] have l: "lstat st' p \<noteq> None" by (rule is_dir_lstat)
  show ?thesis
  proof (cases "is_dir st p")
    case True
    with m have "st' = st" by (simp add: mkdir_parents_def)
    with mir l show ?thesis by (simp add: grows_refl)
  next
    case False
    let ?f = "\<lambda>n. case n of None \<Rightarrow> Inr (Some (Dir [])) | Some x \<Rightarrow> Inl FileExistsError"
    from m False have mm: "modify True ?f p (Some st) = Inr (Some st')"
      by (simp add: mkdir_parents_def modify_fs_Inr)
    have new: "\<And>z q x. ?f (entry st p) = Inr (Some z) \<Longrightarrow> entry z q = Some x \<Longrightarrow>
        agrees rs fs (src @ p @ q) x"
    proof -
      fix z q x
      assume "?f (entry st p) = Inr (Some z)" and e: "entry z q = Some x"
      then have z: "z = Dir []" by (auto split: option.splits)
      from e z have "q = []" "x = Dir []" by (cases q; simp)+
      with d show "agrees rs fs (src @ p @ q) x" by (simp add: agrees_def)
    qed
    from staging_write [OF mm creating_mkdir mir new strict_prefix_is_dir [OF is_dir_lstat [OF d]]] l
    show ?thesis by simp
  qed
qed

lemma copy2_staging:
  assumes m: "copy2 (Some (File r b)) nm p st = Inr st'" and mir: "mirrors rs fs src st"
    and s: "stat fs (src @ p) = Some (File r b)"
    and l: "rs \<or> lstat fs (src @ p) = Some (File r b)"
  shows "mirrors rs fs src st' \<and> grows (Some st) (Some st') \<and> entry st' p = Some (File r b)"
proof -
  let ?f = "\<lambda>n. case n of
               None \<Rightarrow> Inr (Some (File r b))
             | Some (File r' b') \<Rightarrow> if may_write r' then Inr (Some (File r b)) else Inl PermissionError
             | Some (Dir es) \<Rightarrow> Inl IsADirectoryError
             | Some (Symlink t x) \<Rightarrow> Inl LinkTraversal"
  from s have ls: "lstat fs (src @ p) \<noteq> None" by (auto simp: stat_def split: option.splits)
  have nd: "\<not> is_dir st p"
  proof
    assume d: "is_dir st p"
    with m have "modify False ?f (p @ [nm]) (Some st) = Inr (Some st')"
      by (simp add: copy2_def write_file_def modify_fs_Inr split: if_splits)
    from modify_entry_above [OF this, of p] have
      "entry st p = None \<or> (\<exists>es. entry st p = Some (Dir es))" and "lstat st p = entry st p"
      by (simp_all add: strict_prefix_def)
    with is_dir_lstat [OF d] obtain es where "entry st p = Some (Dir es)" by auto
    from mirrorsD [OF mir this] have "is_dir fs (src @ p)" by (simp add: agrees_Dir)
    with s show False by (simp add: is_dir_def)
  qed
  with m have mm: "modify False ?f p (Some st) = Inr (Some st')"
    by (simp add: copy2_def write_file_def modify_fs_Inr split: if_splits)
  have new: "\<And>z q x. ?f (entry st p) = Inr (Some z) \<Longrightarrow> entry z q = Some x \<Longrightarrow>
      agrees rs fs (src @ p @ q) x"
  proof -
    fix z q x
    assume "?f (entry st p) = Inr (Some z)" and e: "entry z q = Some x"
    then have z: "z = File r b" by (auto split: option.splits node.splits if_splits)
    from e z have "q = []" "x = File r b" by (auto dest: entry_below_file)
    with s l show "agrees rs fs (src @ p @ q) x" by (auto simp: agrees_def)
  qed
  from modify_entry_at [OF mm] have "entry st' p = Some (File r b)"
    by (auto split: option.splits node.splits if_splits)
  with staging_write [OF mm creating_write mir new strict_prefix_is_dir [OF ls]]
  show ?thesis by simp
qed

lemma os_symlink_staging:
  assumes m: "os_symlink t x p st = Inr st'" and mir: "mirrors rs fs src st"
    and nrs: "\<not> rs" and l: "lstat fs (src @ p) = Some (Symlink t r)"
  shows "mirrors rs fs src st' \<and> grows (Some st) (Some st') \<and> entry st' p = Some (Symlink t x)"
proof -
  let ?f = "\<lambda>n. case n of None \<Rightarrow> Inr (Some (Symlink t x)) | Some y \<Rightarrow> Inl FileExistsError"
  from m have mm: "modify False ?f p (Some st) = Inr (Some st')"
    by (simp add: os_symlink_def modify_fs_Inr)
  from l have ls: "lstat fs (src @ p) \<noteq> None" by simp
  have new: "\<And>z q y. ?f (entry st p) = Inr (Some z) \<Longrightarrow> entry z q = Some y \<Longrightarrow>
      agrees rs fs (src @ p @ q) y"
  proof -
    fix z q y
    assume "?f (entry st p) = Inr (Some z)" and e: "entry z q = Some y"
    then have z: "z = Symlink t x" by (auto split: option.splits)
    from e z have "q = []" "y = Symlink t x" by (auto dest: entry_below_link)
    with nrs l show "agrees rs fs (src @ p @ q) y" by (auto simp: agrees_def)
  qed
  from modify_entry_at [OF mm] have "entry st' p = Some (Symlink t x)"
    by (auto split: option.splits)
  with staging_write [OF mm creating_symlink mir new strict_prefix_is_dir [OF ls]]
  show ?thesis by simp
qed

lemma copytree_staging:
  assumes m: "copytree (Some (Dir es)) p st = Inr st'" and mir: "mirrors rs fs src st"
    and rs: "rs" and s: "stat fs (src @ p) = Some (Dir es)"
  shows "mirrors rs fs src st' \<and> grows (Some st) (Some st')"
proof -
  let ?f = "\<lambda>n. case n of
                    Some x \<Rightarrow> Inl FileExistsError
                  | None \<Rightarrow> (case resolve_tree (Dir es) of Inl e \<Rightarrow> Inl e | Inr d \<Rightarrow> Inr (Some d))"
  from m have mm: "modify True ?f p (Some st) = Inr (Some st')"
    by (simp only: copytree_def option.case node.case modify_fs_Inr)
  from s have ls: "lstat fs (src @ p) \<noteq> None" by (auto simp: stat_def split: option.splits)
  have new: "\<And>z q x. ?f (entry st p) = Inr (Some z) \<Longrightarrow> entry z q = Some x \<Longrightarrow>
      agrees rs fs (src @ p @ q) x"
  proof -
    fix z q x
    assume "?f (entry st p) = Inr (Some z)" and e: "entry z q = Some x"
    then have z: "resolve_tree (Dir es) = Inr z"
      by (auto split: option.splits sum.splits simp del: resolve_tree.simps)
    from resolve_entry [OF z e] obtain m' where m': "stat (Dir es) q = Some m'"
      and x: "resolve_tree m' = Inr x" by blast
    from s m' have sq: "stat fs (src @ p @ q) = Some m'"
      using stat_append [of fs "src @ p" q] by simp
    from resolve_tree_kind [OF x stat_follow_idem [OF m']] sq rs
    show "agrees rs fs (src @ p @ q) x"
      by (cases m') (auto simp: agrees_def is_dir_def)
  qed
  from staging_write [OF mm creating_copytree mir new strict_prefix_is_dir [OF ls]]
  show ?thesis .
qed

lemma stat_of_lstat: "lstat fs p = Some n \<Longrightarrow> stat fs p = follow n"
  by (simp add: stat_def)

lemma grows_lstat: "grows (Some a) (Some b) \<Longrightarrow> lstat a q \<noteq> None \<Longrightarrow> lstat b q \<noteq> None"
  unfolding grows_def by (metis lstat_opt_Some)

lemma grows_entry:
  "grows (Some a) (Some b) \<Longrightarrow> entry a q = Some x \<Longrightarrow> \<exists>x'. entry b q = Some x' \<and> same_kind x x'"
  unfolding grows_def by (metis entry_opt_Some)

lemma dir_items_lstat:
  assumes "stat fs p = Some (Dir items)" and "map_of items c = Some n"
  shows "lstat fs (p @ [c]) = Some n"
proof -
  from assms(1) obtain m where m: "lstat fs p = Some m" and f: "follow m = Some (Dir items)"
    by (auto simp: stat_def split: option.splits)
  from f assms(2) have "lstat m [c] = Some n" by (simp add: lstat_Cons)
  with m show ?thesis by (simp add: lstat_append)
qed

lemma copy_staging:
  "\<forall>st'. copy_dir relink d dst rs st = Inr st' \<longrightarrow> follow d = stat fs (src @ dst) \<longrightarrow>
      mirrors rs fs src st \<longrightarrow>
      mirrors rs fs src st' \<and> grows (Some st) (Some st') \<and> lstat st' dst \<noteq> None"
  "\<forall>st'. copy_items relink items dst rs st = Inr st' \<longrightarrow>
      (\<forall>c n. map_of items c = Some n \<longrightarrow> lstat fs (src @ dst @ [c]) = Some n) \<longrightarrow>
      mirrors rs fs src st \<longrightarrow>
      mirrors rs fs src st' \<and> grows (Some st) (Some st')"
proof (induction relink d dst rs st and relink items dst rs st rule: copy_dir_copy_items.induct)
  case (1 relink t n dst rs st)
  then show ?case by simp
next
  case (2 relink t dst rs st)
  show ?case by (simp split: sum.splits)
next
  case (3 relink r b dst rs st)
  show ?case by (simp split: sum.splits)
next
  case (4 relink items dst rs st)
  show ?case
  proof (intro allI impI)
    fix st'
    assume run: "copy_dir relink (Dir items) dst rs st = Inr st'"
      and f: "follow (Dir items) = stat fs (src @ dst)"
      and mir: "mirrors rs fs src st"
    from run obtain st1 where mk: "mkdir_parents dst st = Inr st1"
      and ci: "copy_items relink items dst rs st1 = Inr st'"
      by (auto split: sum.splits)
    from f have s: "stat fs (src @ dst) = Some (Dir items)" by simp
    then have d: "is_dir fs (src @ dst)" by (simp add: is_dir_def)
    from mkdir_parents_staging [OF mk mir d] have m1: "mirrors rs fs src st1"
      and g1: "grows (Some st) (Some st1)" and l1: "lstat st1 dst \<noteq> None" by simp_all
    have it: "\<forall>c n. map_of items c = Some n \<longrightarrow> lstat fs (src @ dst @ [c]) = Some n"
      using dir_items_lstat [OF s] by simp
    from 4 [OF mk, rule_format, OF ci it [rule_format] m1] have m2: "mirrors rs fs src st'"
      and g2: "grows (Some st1) (Some st')" by simp_all
    from m2 grows_trans [OF g1 g2] grows_lstat [OF g2 l1]
    show "mirrors rs fs src st' \<and> grows (Some st) (Some st') \<and> lstat st' dst \<noteq> None" by simp
  qed
next
  case (5 relink dst rs st)
  show ?case by (simp add: grows_refl)
next
  case (6 relink item_name item items dst rs st)
  let ?x = "dst @ [item_name]"
  let ?rest = "filter (\<lambda>e. fst e \<noteq> item_name) items"
  show ?case
  proof (intro allI impI)
    fix st'
    assume run: "copy_items relink ((item_name, item) # items) dst rs st = Inr st'"
      and it: "\<forall>c n. map_of ((item_name, item) # items) c = Some n \<longrightarrow>
                 lstat fs (src @ dst @ [c]) = Some n"
      and mir: "mirrors rs fs src st"
    from it have li: "lstat fs (src @ ?x) = Some item" by simp
    have itr: "\<forall>c n. map_of ?rest c = Some n \<longrightarrow> lstat fs (src @ dst @ [c]) = Some n"
      using it by (auto simp: map_of_filter_fst split: if_splits)
    have fin: "mirrors rs fs src st' \<and> grows (Some st) (Some st')"
      if ih: "\<forall>st'. copy_items relink ?rest dst rs b = Inr st' \<longrightarrow>
                (\<forall>c n. map_of ?rest c = Some n \<longrightarrow> lstat fs (src @ dst @ [c]) = Some n) \<longrightarrow>
                mirrors rs fs src b \<longrightarrow>
                mirrors rs fs src st' \<and> grows (Some b) (Some st')"
        and r: "copy_items relink ?rest dst rs b = Inr st'"
        and mb: "mirrors rs fs src b" and gb: "grows (Some st) (Some b)" for b
    proof -
      from ih [rule_format, OF r itr [rule_format] mb] gb show ?thesis by (auto intro: grows_trans)
    qed
    show "mirrors rs fs src st' \<and> grows (Some st) (Some st')"
    proof (cases item)
      case (File r0 b0)
      from run File obtain b where c2: "copy2 (Some item) item_name ?x st = Inr b"
        and r: "copy_items relink ?rest dst rs b = Inr st'"
        by (auto simp: Let_def split: sum.splits)
      from li File have s: "stat fs (src @ ?x) = Some (File r0 b0)"
        and l: "rs \<or> lstat fs (src @ ?x) = Some (File r0 b0)"
        by (simp_all add: stat_of_lstat)
      from copy2_staging [OF c2 [unfolded File] mir s l]
      have mb: "mirrors rs fs src b" and gb: "grows (Some st) (Some b)" by simp_all
      from fin [OF "6.IH"(1) [OF refl refl File c2] r mb gb] show ?thesis .
    next
      case (Dir es)
      from run Dir obtain b where cd: "copy_dir relink item ?x rs st = Inr b"
        and r: "copy_items relink ?rest dst rs b = Inr st'"
        by (auto simp: Let_def split: sum.splits)
      from li Dir have f: "follow item = stat fs (src @ ?x)" by (simp add: stat_of_lstat)
      from "6.IH"(2) [OF refl refl Dir, rule_format, OF cd f mir]
      have mb: "mirrors rs fs src b" and gb: "grows (Some st) (Some b)" by simp_all
      from fin [OF "6.IH"(3) [OF refl refl Dir cd] r mb gb] show ?thesis .
    next
      case (Symlink t x)
      show ?thesis
      proof (cases rs)
        case False
        from run Symlink False obtain b where
          os: "os_symlink t (relink ?x t) ?x st = Inr b"
          and r: "copy_items relink ?rest dst rs b = Inr st'"
          by (auto simp: Let_def split: sum.splits)
        from os_symlink_staging [OF os mir False li [unfolded Symlink]]
        have mb: "mirrors rs fs src b" and gb: "grows (Some st) (Some b)" by simp_all
        from fin [OF "6.IH"(8) [OF refl refl Symlink False os] r mb gb] show ?thesis .
      next
        case True
        show ?thesis
        proof (cases "follow item")
          case None
          from run Symlink True None have r: "copy_items relink ?rest dst rs st = Inr st'"
            by (auto simp: Let_def split: sum.splits)
          from fin [OF "6.IH"(4) [OF refl refl Symlink True None] r mir grows_refl]
          show ?thesis .
        next
          case (Some m)
          from li have s: "stat fs (src @ ?x) = follow item" by (rule stat_of_lstat)
          show ?thesis
          proof (cases m)
            case (File r1 b1)
            from run Symlink True Some File obtain b where
              c2: "copy2 (follow item) (real_name item) ?x st = Inr b"
              and r: "copy_items relink ?rest dst rs b = Inr st'"
              by (auto simp: Let_def split: sum.splits)
            from s Some File have s': "stat fs (src @ ?x) = Some (File r1 b1)" by simp
            from True have l: "rs \<or> lstat fs (src @ ?x) = Some (File r1 b1)" by simp
            from c2 Some File have c2': "copy2 (Some (File r1 b1)) (real_name item) ?x st = Inr b"
              by simp
            from copy2_staging [OF c2' mir s' l]
            have mb: "mirrors rs fs src b" and gb: "grows (Some st) (Some b)" by simp_all
            from fin [OF "6.IH"(5) [OF refl refl Symlink True Some File c2] r mb gb]
            show ?thesis .
          next
            case (Dir es)
            from run Symlink True Some Dir obtain b where
              ct: "copytree (follow item) ?x st = Inr b"
              and r: "copy_items relink ?rest dst rs b = Inr st'"
              by (auto simp: Let_def split: sum.splits)
            from s Some Dir have s': "stat fs (src @ ?x) = Some (Dir es)" by simp
            from ct Some Dir have ct': "copytree (Some (Dir es)) ?x st = Inr b" by simp
            from copytree_staging [OF ct' mir True s']
            have mb: "mirrors rs fs src b" and gb: "grows (Some st) (Some b)" by simp_all
            from fin [OF "6.IH"(6) [OF refl refl Symlink True Some Dir ct] r mb gb]
            show ?thesis .
          next
            case (Symlink t' x')
            with Some follow_not_link show ?thesis by simp
          qed
        qed
      qed
    qed
  qed
qed

lemma staging_loop_skip:
  "\<not> exists fs (src @ sp) \<Longrightarrow>
   staging_loop relink fs src (sp # sps) rs st = staging_loop relink fs src sps rs st"
  by simp


lemma parent_is_dir:
  assumes "is_dir fs src" and "lstat fs (src @ sp) \<noteq> None"
  shows "is_dir fs (src @ butlast sp)"
proof (cases "sp = []")
  case True
  with assms(1) show ?thesis by simp
next
  case False
  then have "sp = butlast sp @ [last sp]" by simp
  with assms(2) have "lstat fs ((src @ butlast sp) @ [last sp]) \<noteq> None" by simp
  from lstat_parent_is_dir [OF this] show ?thesis by simp
qed

text \<open>Without resolution every link below a copied directory is made again.\<close>

lemma copy_links:
  "\<forall>st'. copy_dir relink d dst rs st = Inr st' \<longrightarrow> follow d = stat fs (src @ dst) \<longrightarrow>
      mirrors rs fs src st \<longrightarrow> \<not> rs \<longrightarrow>
      (\<forall>m q t r. follow d = Some m \<longrightarrow> entry m q = Some (Symlink t r) \<longrightarrow>
          entry st' (dst @ q) = Some (Symlink t (relink (dst @ q) t)))"
  "\<forall>st'. copy_items relink items dst rs st = Inr st' \<longrightarrow>
      (\<forall>c n. map_of items c = Some n \<longrightarrow> lstat fs (src @ dst @ [c]) = Some n) \<longrightarrow>
      mirrors rs fs src st \<longrightarrow> \<not> rs \<longrightarrow>
      (\<forall>c n q t r. map_of items c = Some n \<longrightarrow> entry n q = Some (Symlink t r) \<longrightarrow>
          entry st' (dst @ c # q) = Some (Symlink t (relink (dst @ c # q) t)))"
proof (induction relink d dst rs st and relink items dst rs st rule: copy_dir_copy_items.induct)
  case (1 relink t n dst rs st)
  then show ?case by simp
next
  case (2 relink t dst rs st)
  show ?case by (simp split: sum.splits)
next
  case (3 relink r b dst rs st)
  show ?case by (simp split: sum.splits)
next
  case (4 relink items dst rs st)
  show ?case
  proof (intro allI impI)
    fix st' m q t r
    assume run: "copy_dir relink (Dir items) dst rs st = Inr st'"
      and f: "follow (Dir items) = stat fs (src @ dst)"
      and mir: "mirrors rs fs src st" and nrs: "\<not> rs"
      and fm: "follow (Dir items) = Some m" and e: "entry m q = Some (Symlink t r)"
    from run obtain st1 where mk: "mkdir_parents dst st = Inr st1"
      and ci: "copy_items relink items dst rs st1 = Inr st'"
      by (auto split: sum.splits)
    from f have s: "stat fs (src @ dst) = Some (Dir items)" by simp
    then have d: "is_dir fs (src @ dst)" by (simp add: is_dir_def)
    from mkdir_parents_staging [OF mk mir d] have m1: "mirrors rs fs src st1" by simp
    have it: "\<forall>c n. map_of items c = Some n \<longrightarrow> lstat fs (src @ dst @ [c]) = Some n"
      using dir_items_lstat [OF s] by simp
    from fm e obtain c q' n where q: "q = c # q'" and n: "map_of items c = Some n"
      and en: "entry n q' = Some (Symlink t r)"
      by (cases q) (auto split: option.splits)
    from 4 [OF mk, rule_format, OF ci it [rule_format] m1 nrs n en] q
    show "entry st' (dst @ q) = Some (Symlink t (relink (dst @ q) t))" by simp
  qed
next
  case (5 relink dst rs st)
  show ?case by simp
next
  case (6 relink item_name item items dst rs st)
  let ?x = "dst @ [item_name]"
  let ?rest = "filter (\<lambda>e. fst e \<noteq> item_name) items"
  show ?case
  proof (intro allI impI)
    fix st' c n q t r
    assume run: "copy_items relink ((item_name, item) # items) dst rs st = Inr st'"
      and it: "\<forall>c n. map_of ((item_name, item) # items) c = Some n \<longrightarrow>
                 lstat fs (src @ dst @ [c]) = Some n"
      and mir: "mirrors rs fs src st" and nrs: "\<not> rs"
      and n: "map_of ((item_name, item) # items) c = Some n"
      and en: "entry n q = Some (Symlink t r)"
    from it have li: "lstat fs (src @ ?x) = Some item" by simp
    have itr: "\<forall>c n. map_of ?rest c = Some n \<longrightarrow> lstat fs (src @ dst @ [c]) = Some n"
      using it by (auto simp: map_of_filter_fst split: if_splits)
    have fin: "entry st' (dst @ c # q) = Some (Symlink t (relink (dst @ c # q) t))"
      if ih: "\<forall>st'. copy_items relink ?rest dst rs b = Inr st' \<longrightarrow>
                (\<forall>c n. map_of ?rest c = Some n \<longrightarrow> lstat fs (src @ dst @ [c]) = Some n) \<longrightarrow>
                mirrors rs fs src b \<longrightarrow> \<not> rs \<longrightarrow>
                (\<forall>c n q t r. map_of ?rest c = Some n \<longrightarrow> entry n q = Some (Symlink t r) \<longrightarrow>
                   entry st' (dst @ c # q) = Some (Symlink t (relink (dst @ c # q) t)))"
        and rr: "copy_items relink ?rest dst rs b = Inr st'"
        and mb: "mirrors rs fs src b"
        and hd: "c = item_name \<Longrightarrow>
                 entry b (dst @ c # q) = Some (Symlink t (relink (dst @ c # q) t))" for b
    proof (cases "c = item_name")
      case True
      from copy_staging(2) [rule_format, OF rr itr [rule_format] mb]
      have g: "grows (Some b) (Some st')" by simp
      from grows_entry [OF g hd [OF True]] show ?thesis by (simp add: same_kind_def)
    next
      case False
      with n have "map_of ?rest c = Some n" by (simp add: map_of_filter_fst)
      from ih [rule_format, OF rr itr [rule_format] mb nrs this en] show ?thesis .
    qed
    show "entry st' (dst @ c # q) = Some (Symlink t (relink (dst @ c # q) t))"
    proof (cases item)
      case (File r0 b0)
      from run File obtain b where c2: "copy2 (Some item) item_name ?x st = Inr b"
        and rr: "copy_items relink ?rest dst rs b = Inr st'"
        by (auto simp: Let_def split: sum.splits)
      from li File have s: "stat fs (src @ ?x) = Some (File r0 b0)"
        and l: "rs \<or> lstat fs (src @ ?x) = Some (File r0 b0)"
        by (simp_all add: stat_of_lstat)
      from copy2_staging [OF c2 [unfolded File] mir s l]
      have mb: "mirrors rs fs src b" by simp
      have hd: "c = item_name \<Longrightarrow>
                 entry b (dst @ c # q) = Some (Symlink t (relink (dst @ c # q) t))"
        using n en File by (auto dest: entry_below_file)
      from fin [OF "6.IH"(1) [OF refl refl File c2] rr mb hd] show ?thesis .
    next
      case (Dir es)
      from run Dir obtain b where cd: "copy_dir relink item ?x rs st = Inr b"
        and rr: "copy_items relink ?rest dst rs b = Inr st'"
        by (auto simp: Let_def split: sum.splits)
      from li Dir have f: "follow item = stat fs (src @ ?x)" by (simp add: stat_of_lstat)
      from copy_staging(1) [rule_format, OF cd f mir]
      have mb: "mirrors rs fs src b" by simp
      have hd: "entry b (dst @ c # q) = Some (Symlink t (relink (dst @ c # q) t))"
        if "c = item_name"
      proof -
        from that n have "n = item" by simp
        with en have e: "entry item q = Some (Symlink t r)" by simp
        from Dir have "follow item = Some item" by simp
        from "6.IH"(2) [OF refl refl Dir, rule_format, OF cd f mir nrs this e] that
        show ?thesis by simp
      qed
      from fin [OF "6.IH"(3) [OF refl refl Dir cd] rr mb hd] show ?thesis .
    next
      case (Symlink t0 x0)
      from run Symlink nrs obtain b where
        os: "os_symlink t0 (relink ?x t0) ?x st = Inr b"
        and rr: "copy_items relink ?rest dst rs b = Inr st'"
        by (auto simp: Let_def split: sum.splits)
      from os_symlink_staging [OF os mir nrs li [unfolded Symlink]]
      have mb: "mirrors rs fs src b"
        and e: "entry b ?x = Some (Symlink t0 (relink ?x t0))" by simp_all
      have hd: "entry b (dst @ c # q) = Some (Symlink t (relink (dst @ c # q) t))"
        if "c = item_name"
      proof -
        from that n have "n = item" by simp
        with en Symlink have "q = []" "t = t0" by (auto dest: entry_below_link)
        with e that show ?thesis by simp
      qed
      from fin [OF "6.IH"(8) [OF refl refl Symlink nrs os] rr mb hd] show ?thesis .
    qed
  qed
qed

lemma news_refl: "news st st p"
  by (simp add: news_def)

lemma news_trans: "news a b p \<Longrightarrow> news b c p \<Longrightarrow> news a c p"
  unfolding news_def by blast

lemma news_below: "news a b (p @ r) \<Longrightarrow> news a b p"
  unfolding news_def
proof (intro allI impI)
  fix q
  assume a: "\<forall>q. entry b q \<noteq> None \<longrightarrow> entry a q \<noteq> None \<or> prefix q (p @ r) \<or> prefix (p @ r) q"
    and e: "entry b q \<noteq> None"
  from a e have "entry a q \<noteq> None \<or> prefix q (p @ r) \<or> prefix (p @ r) q" by blast
  moreover have "prefix q p \<or> prefix p q" if "prefix q (p @ r)"
    using that by (metis prefix_append prefix_order.dual_order.trans prefixI)
  moreover have "prefix p q" if "prefix (p @ r) q"
    using that by (metis append_prefixD)
  ultimately show "entry a q \<noteq> None \<or> prefix q p \<or> prefix p q" by blast
qed

lemma modify_news:
  assumes "modify mk f p (Some st) = Inr (Some st')"
  shows "news st st' p"
  unfolding news_def
proof (intro allI impI)
  fix q
  assume e: "entry st' q \<noteq> None"
  show "entry st q \<noteq> None \<or> prefix q p \<or> prefix p q"
  proof (cases "prefix p q \<or> prefix q p")
    case True
    then show ?thesis by blast
  next
    case False
    with modify_entry_frame [OF assms, of q] e show ?thesis by simp
  qed
qed

lemma mkdir_parents_news:
  assumes m: "mkdir_parents p st = Inr st'" and e: "entry st' q \<noteq> None"
  shows "entry st q \<noteq> None \<or> prefix q p"
proof (cases "is_dir st p")
  case True
  with m e show ?thesis by (simp add: mkdir_parents_def)
next
  case False
  let ?f = "\<lambda>n. case n of None \<Rightarrow> Inr (Some (Dir [])) | Some x \<Rightarrow> Inl FileExistsError"
  from m False have mm: "modify True ?f p (Some st) = Inr (Some st')"
    by (simp add: mkdir_parents_def modify_fs_Inr)
  show ?thesis
  proof (cases "prefix q p")
    case True
    then show ?thesis by simp
  next
    case nq: False
    show ?thesis
    proof (cases "prefix p q")
      case True
      then obtain r where q: "q = p @ r" by (auto simp: prefix_def)
      with nq have r: "r \<noteq> []" by auto
      from modify_entry_at [OF mm] have "entry st' p = Some (Dir [])"
        by (auto split: option.splits)
      with q r have "entry st' q = None" by (cases r) (simp_all add: entry_append)
      with e show ?thesis by simp
    next
      case False
      with modify_entry_frame [OF mm False nq] e show ?thesis by simp
    qed
  qed
qed

lemma write_file_news: "write_file p new st = Inr st' \<Longrightarrow> news st st' p"
  by (auto simp: write_file_def modify_fs_Inr intro: modify_news)

lemma copy2_news:
  assumes "copy2 src nm p st = Inr st'"
  shows "news st st' p"
proof -
  from assms obtain new where "write_file (p @ [nm]) new st = Inr st' \<or> write_file p new st = Inr st'"
    by (auto simp: copy2_def split: option.splits node.splits if_splits)
  then show ?thesis using write_file_news news_below by blast
qed

lemma copytree_news:
  assumes "copytree src p st = Inr st'"
  shows "news st st' p"
proof -
  from assms obtain es where s: "src = Some (Dir es)"
    by (auto simp: copytree_def split: option.splits node.splits)
  from assms have "modify True (\<lambda>n. case n of
                    Some x \<Rightarrow> Inl FileExistsError
                  | None \<Rightarrow> (case resolve_tree (Dir es) of Inl e \<Rightarrow> Inl e | Inr d \<Rightarrow> Inr (Some d)))
       p (Some st) = Inr (Some st')"
    unfolding s by (simp only: copytree_def option.case node.case modify_fs_Inr)
  from modify_news [OF this] show ?thesis .
qed

lemma os_symlink_news: "os_symlink t x p st = Inr st' \<Longrightarrow> news st st' p"
  by (auto simp: os_symlink_def modify_fs_Inr intro: modify_news)

lemma mkdir_parents_news': "mkdir_parents p st = Inr st' \<Longrightarrow> news st st' p"
  unfolding news_def using mkdir_parents_news by blast

lemma copy_news:
  "\<forall>st'. copy_dir relink d dst rs st = Inr st' \<longrightarrow> news st st' dst"
  "\<forall>st'. copy_items relink items dst rs st = Inr st' \<longrightarrow> news st st' dst"
proof (induction relink d dst rs st and relink items dst rs st rule: copy_dir_copy_items.induct)
  case (1 relink t n dst rs st)
  then show ?case by simp
next
  case (2 relink t dst rs st)
  show ?case by (simp split: sum.splits)
next
  case (3 relink r b dst rs st)
  show ?case by (simp split: sum.splits)
next
  case (4 relink items dst rs st)
  show ?case
  proof (intro allI impI)
    fix st'
    assume "copy_dir relink (Dir items) dst rs st = Inr st'"
    then obtain st1 where mk: "mkdir_parents dst st = Inr st1"
      and ci: "copy_items relink items dst rs st1 = Inr st'"
      by (auto split: sum.splits)
    from 4 [OF mk, rule_format, OF ci] mkdir_parents_news' [OF mk]
    show "news st st' dst" by (blast intro: news_trans)
  qed
next
  case (5 relink dst rs st)
  show ?case by (simp add: news_refl)
next
  case (6 relink item_name item items dst rs st)
  let ?x = "dst @ [item_name]"
  let ?rest = "filter (\<lambda>e. fst e \<noteq> item_name) items"
  show ?case
  proof (intro allI impI)
    fix st'
    assume run: "copy_items relink ((item_name, item) # items) dst rs st = Inr st'"
    have fin: "news st st' dst"
      if "\<forall>st'. copy_items relink ?rest dst rs b = Inr st' \<longrightarrow> news b st' dst"
        and "copy_items relink ?rest dst rs b = Inr st'" and "news st b ?x" for b
      using that news_below [of st b dst "[item_name]"] by (blast intro: news_trans)
    show "news st st' dst"
    proof (cases item)
      case (File r0 b0)
      from run File obtain b where c2: "copy2 (Some item) item_name ?x st = Inr b"
        and r: "copy_items relink ?rest dst rs b = Inr st'"
        by (auto simp: Let_def split: sum.splits)
      from fin [OF "6.IH"(1) [OF refl refl File c2] r copy2_news [OF c2]] show ?thesis .
    next
      case (Dir es)
      from run Dir obtain b where cd: "copy_dir relink item ?x rs st = Inr b"
        and r: "copy_items relink ?rest dst rs b = Inr st'"
        by (auto simp: Let_def split: sum.splits)
      from "6.IH"(2) [OF refl refl Dir, rule_format, OF cd] have "news st b ?x" .
      from fin [OF "6.IH"(3) [OF refl refl Dir cd] r this] show ?thesis .
    next
      case (Symlink t x)
      show ?thesis
      proof (cases rs)
        case False
        from run Symlink False obtain b where
          os: "os_symlink t (relink ?x t) ?x st = Inr b"
          and r: "copy_items relink ?rest dst rs b = Inr st'"
          by (auto simp: Let_def split: sum.splits)
        from fin [OF "6.IH"(8) [OF refl refl Symlink False os] r os_symlink_news [OF os]]
        show ?thesis .
      next
        case True
        show ?thesis
        proof (cases "follow item")
          case None
          from run Symlink True None have r: "copy_items relink ?rest dst rs st = Inr st'"
            by (auto simp: Let_def split: sum.splits)
          from fin [OF "6.IH"(4) [OF refl refl Symlink True None] r news_refl]
          show ?thesis .
        next
          case (Some m)
          show ?thesis
          proof (cases m)
            case (File r1 b1)
            from run Symlink True Some File obtain b where
              c2: "copy2 (follow item) (real_name item) ?x st = Inr b"
              and r: "copy_items relink ?rest dst rs b = Inr st'"
              by (auto simp: Let_def split: sum.splits)
            from fin [OF "6.IH"(5) [OF refl refl Symlink True Some File c2] r copy2_news [OF c2]]
            show ?thesis .
          next
            case (Dir es)
            from run Symlink True Some Dir obtain b where
              ct: "copytree (follow item) ?x st = Inr b"
              and r: "copy_items relink ?rest dst rs b = Inr st'"
              by (auto simp: Let_def split: sum.splits)
            from fin [OF "6.IH"(6) [OF refl refl Symlink True Some Dir ct] r copytree_news [OF ct]]
            show ?thesis .
          next
            case (Symlink t' x')
            with Some follow_not_link show ?thesis by simp
          qed
        qed
      qed
    qed
  qed
qed

text \<open>Every file below a copied directory is copied.\<close>

lemma copy_files:
  "\<forall>st'. copy_dir relink d dst rs st = Inr st' \<longrightarrow> follow d = stat fs (src @ dst) \<longrightarrow>
      mirrors rs fs src st \<longrightarrow>
      (\<forall>m q r b. follow d = Some m \<longrightarrow> entry m q = Some (File r b) \<longrightarrow>
          (\<exists>r' b'. entry st' (dst @ q) = Some (File r' b')))"
  "\<forall>st'. copy_items relink items dst rs st = Inr st' \<longrightarrow>
      (\<forall>c n. map_of items c = Some n \<longrightarrow> lstat fs (src @ dst @ [c]) = Some n) \<longrightarrow>
      mirrors rs fs src st \<longrightarrow>
      (\<forall>c n q r b. map_of items c = Some n \<longrightarrow> entry n q = Some (File r b) \<longrightarrow>
          (\<exists>r' b'. entry st' (dst @ c # q) = Some (File r' b')))"
proof (induction relink d dst rs st and relink items dst rs st rule: copy_dir_copy_items.induct)
  case (1 relink t n dst rs st)
  then show ?case by simp
next
  case (2 relink t dst rs st)
  show ?case by (simp split: sum.splits)
next
  case (3 relink r b dst rs st)
  show ?case by (simp split: sum.splits)
next
  case (4 relink items dst rs st)
  show ?case
  proof (intro allI impI)
    fix st' m q r b
    assume run: "copy_dir relink (Dir items) dst rs st = Inr st'"
      and f: "follow (Dir items) = stat fs (src @ dst)"
      and mir: "mirrors rs fs src st"
      and fm: "follow (Dir items) = Some m" and e: "entry m q = Some (File r b)"
    from run obtain st1 where mk: "mkdir_parents dst st = Inr st1"
      and ci: "copy_items relink items dst rs st1 = Inr st'"
      by (auto split: sum.splits)
    from f have s: "stat fs (src @ dst) = Some (Dir items)" by simp
    then have d: "is_dir fs (src @ dst)" by (simp add: is_dir_def)
    from mkdir_parents_staging [OF mk mir d] have m1: "mirrors rs fs src st1" by simp
    have it: "\<forall>c n. map_of items c = Some n \<longrightarrow> lstat fs (src @ dst @ [c]) = Some n"
      using dir_items_lstat [OF s] by simp
    from fm e obtain c q' n where q: "q = c # q'" and n: "map_of items c = Some n"
      and en: "entry n q' = Some (File r b)"
      by (cases q) (auto split: option.splits)
    from 4 [OF mk, rule_format, OF ci it [rule_format] m1 n en] q
    show "\<exists>r' b'. entry st' (dst @ q) = Some (File r' b')" by simp
  qed
next
  case (5 relink dst rs st)
  show ?case by simp
next
  case (6 relink item_name item items dst rs st)
  let ?x = "dst @ [item_name]"
  let ?rest = "filter (\<lambda>e. fst e \<noteq> item_name) items"
  show ?case
  proof (intro allI impI)
    fix st' c n q fr fb
    assume run: "copy_items relink ((item_name, item) # items) dst rs st = Inr st'"
      and it: "\<forall>c n. map_of ((item_name, item) # items) c = Some n \<longrightarrow>
                 lstat fs (src @ dst @ [c]) = Some n"
      and mir: "mirrors rs fs src st"
      and n: "map_of ((item_name, item) # items) c = Some n"
      and en: "entry n q = Some (File fr fb)"
    from it have li: "lstat fs (src @ ?x) = Some item" by simp
    have itr: "\<forall>c n. map_of ?rest c = Some n \<longrightarrow> lstat fs (src @ dst @ [c]) = Some n"
      using it by (auto simp: map_of_filter_fst split: if_splits)
    have fin: "\<exists>r' b'. entry st' (dst @ c # q) = Some (File r' b')"
      if ih: "\<forall>st'. copy_items relink ?rest dst rs b = Inr st' \<longrightarrow>
                (\<forall>c n. map_of ?rest c = Some n \<longrightarrow> lstat fs (src @ dst @ [c]) = Some n) \<longrightarrow>
                mirrors rs fs src b \<longrightarrow>
                (\<forall>c n q r b. map_of ?rest c = Some n \<longrightarrow> entry n q = Some (File r b) \<longrightarrow>
                   (\<exists>r' b'. entry st' (dst @ c # q) = Some (File r' b')))"
        and rr: "copy_items relink ?rest dst rs b = Inr st'"
        and mb: "mirrors rs fs src b"
        and hd: "c = item_name \<Longrightarrow> \<exists>r' b'. entry b (dst @ c # q) = Some (File r' b')" for b
    proof (cases "c = item_name")
      case True
      from copy_staging(2) [rule_format, OF rr itr [rule_format] mb]
      have g: "grows (Some b) (Some st')" by simp
      from hd [OF True] obtain r1 b1 where "entry b (dst @ c # q) = Some (File r1 b1)" by blast
      from grows_entry [OF g this] show ?thesis by (auto simp: same_kind_def)
    next
      case False
      with n have "map_of ?rest c = Some n" by (simp add: map_of_filter_fst)
      from ih [rule_format, OF rr itr [rule_format] mb this en] show ?thesis .
    qed
    show "\<exists>r' b'. entry st' (dst @ c # q) = Some (File r' b')"
    proof (cases item)
      case (File r0 b0)
      from run File obtain b where c2: "copy2 (Some item) item_name ?x st = Inr b"
        and rr: "copy_items relink ?rest dst rs b = Inr st'"
        by (auto simp: Let_def split: sum.splits)
      from li File have s: "stat fs (src @ ?x) = Some (File r0 b0)"
        and l: "rs \<or> lstat fs (src @ ?x) = Some (File r0 b0)"
        by (simp_all add: stat_of_lstat)
      from copy2_staging [OF c2 [unfolded File] mir s l]
      have mb: "mirrors rs fs src b" and e: "entry b ?x = Some (File r0 b0)" by simp_all
      have hd: "\<exists>r' b'. entry b (dst @ c # q) = Some (File r' b')" if "c = item_name"
      proof -
        from that n have "n = item" by simp
        with en File have "q = []" by (auto dest: entry_below_file)
        with e that show ?thesis by simp
      qed
      from fin [OF "6.IH"(1) [OF refl refl File c2] rr mb hd] show ?thesis .
    next
      case (Dir es)
      from run Dir obtain b where cd: "copy_dir relink item ?x rs st = Inr b"
        and rr: "copy_items relink ?rest dst rs b = Inr st'"
        by (auto simp: Let_def split: sum.splits)
      from li Dir have f: "follow item = stat fs (src @ ?x)" by (simp add: stat_of_lstat)
      from copy_staging(1) [rule_format, OF cd f mir]
      have mb: "mirrors rs fs src b" by simp
      have hd: "\<exists>r' b'. entry b (dst @ c # q) = Some (File r' b')" if "c = item_name"
      proof -
        from that n have "n = item" by simp
        with en have e: "entry item q = Some (File fr fb)" by simp
        from Dir have "follow item = Some item" by simp
        from "6.IH"(2) [OF refl refl Dir, rule_format, OF cd f mir this e] that
        show ?thesis by simp
      qed
      from fin [OF "6.IH"(3) [OF refl refl Dir cd] rr mb hd] show ?thesis .
    next
      case (Symlink t x)
      have hd: "\<exists>r' b'. entry b (dst @ c # q) = Some (File r' b')" if "c = item_name" for b
      proof -
        from that n have "n = item" by simp
        with en Symlink show ?thesis by (auto dest: entry_below_link)
      qed
      show ?thesis
      proof (cases rs)
        case False
        from run Symlink False obtain b where
          os: "os_symlink t (relink ?x t) ?x st = Inr b"
          and rr: "copy_items relink ?rest dst rs b = Inr st'"
          by (auto simp: Let_def split: sum.splits)
        from os_symlink_staging [OF os mir False li [unfolded Symlink]]
        have mb: "mirrors rs fs src b" by simp
        from fin [OF "6.IH"(8) [OF refl refl Symlink False os] rr mb hd] show ?thesis .
      next
        case True
        show ?thesis
        proof (cases "follow item")
          case None
          from run Symlink True None have rr: "copy_items relink ?rest dst rs st = Inr st'"
            by (auto simp: Let_def split: sum.splits)
          from fin [OF "6.IH"(4) [OF refl refl Symlink True None] rr mir hd]
          show ?thesis .
        next
          case (Some m)
          from li have s: "stat fs (src @ ?x) = follow item" by (rule stat_of_lstat)
          show ?thesis
          proof (cases m)
            case (File r1 b1)
            from run Symlink True Some File obtain b where
              c2: "copy2 (follow item) (real_name item) ?x st = Inr b"
              and rr: "copy_items relink ?rest dst rs b = Inr st'"
              by (auto simp: Let_def split: sum.splits)
            from s Some File have s': "stat fs (src @ ?x) = Some (File r1 b1)" by simp
            from True have l: "rs \<or> lstat fs (src @ ?x) = Some (File r1 b1)" by simp
            from c2 Some File have c2': "copy2 (Some (File r1 b1)) (real_name item) ?x st = Inr b"
              by simp
            from copy2_staging [OF c2' mir s' l] have mb: "mirrors rs fs src b" by simp
            from fin [OF "6.IH"(5) [OF refl refl Symlink True Some File c2] rr mb hd]
            show ?thesis .
          next
            case (Dir es)
            from run Symlink True Some Dir obtain b where
              ct: "copytree (follow item) ?x st = Inr b"
              and rr: "copy_items relink ?rest dst rs b = Inr st'"
              by (auto simp: Let_def split: sum.splits)
            from s Some Dir have s': "stat fs (src @ ?x) = Some (Dir es)" by simp
            from ct Some Dir have ct': "copytree (Some (Dir es)) ?x st = Inr b" by simp
            from copytree_staging [OF ct' mir True s'] have mb: "mirrors rs fs src b" by simp
            from fin [OF "6.IH"(6) [OF refl refl Symlink True Some Dir ct] rr mb hd]
            show ?thesis .
          next
            case (Symlink t' x')
            with Some follow_not_link show ?thesis by simp
          qed
        qed
      qed
    qed
  qed
qed


text \<open>One round of the loop of \<^verbatim>\<open>prepare_staging\<close>.\<close>

lemma staging_step:
  assumes run: "staging_loop relink fs src (sp # sps) rs st = Inr st'"
    and sd: "is_dir fs src" and mir: "mirrors rs fs src st"
  shows "\<exists>st1. staging_loop relink fs src sps rs st1 = Inr st' \<and>
           mirrors rs fs src st1 \<and> grows (Some st) (Some st1) \<and>
           (exists fs (src @ sp) \<longrightarrow> lstat st1 sp \<noteq> None) \<and>
           (\<forall>r b. lstat fs (src @ sp) = Some (File r b) \<longrightarrow> entry st1 sp = Some (File r b)) \<and>
           (\<forall>t r. \<not> rs \<longrightarrow> lstat fs (src @ sp) = Some (Symlink t r) \<longrightarrow> exists fs (src @ sp) \<longrightarrow>
                  \<not> is_dir fs (src @ sp) \<longrightarrow> entry st1 sp = Some (Symlink t (relink sp t))) \<and>
           (\<forall>d q t r. \<not> rs \<longrightarrow> is_dir fs (src @ sp) \<longrightarrow> stat fs (src @ sp) = Some d \<longrightarrow>
                  entry d q = Some (Symlink t r) \<longrightarrow>
                  entry st1 (sp @ q) = Some (Symlink t (relink (sp @ q) t))) \<and>
           (\<forall>q. entry st1 q \<noteq> None \<longrightarrow> entry st q \<noteq> None \<or>
                  exists fs (src @ sp) \<and> (prefix q sp \<or> prefix sp q)) \<and>
           (\<forall>d q r b. is_dir fs (src @ sp) \<longrightarrow> stat fs (src @ sp) = Some d \<longrightarrow>
                  entry d q = Some (File r b) \<longrightarrow> (\<exists>r' b'. entry st1 (sp @ q) = Some (File r' b')))"
proof (cases "exists fs (src @ sp)")
  case False
  with run have "staging_loop relink fs src sps rs st = Inr st'" by simp
  moreover from False have "\<And>r b. lstat fs (src @ sp) \<noteq> Some (File r b)"
    by (auto simp: exists_def stat_def)
  moreover from False have "\<not> is_dir fs (src @ sp)" by (auto simp: exists_def is_dir_def)
  ultimately show ?thesis using False mir by (auto intro: grows_refl)
next
  case True
  then obtain m where m: "stat fs (src @ sp) = Some m" by (auto simp: exists_def)
  then obtain l where l: "lstat fs (src @ sp) = Some l" and fl: "follow l = Some m"
    by (auto simp: stat_def split: option.splits)
  show ?thesis
  proof (cases "is_file fs (src @ sp) \<or> (is_symlink fs (src @ sp) \<and> \<not> is_dir fs (src @ sp))")
    case fb: True
    from fb m obtain r b where mf: "m = File r b"
      by (cases m) (auto simp: is_file_def is_dir_def stat_not_link)
    then have nd: "\<not> is_dir fs (src @ sp)" using m by (simp add: is_dir_def)
    from run True fb obtain sa where mk: "mkdir_parents (butlast sp) st = Inr sa"
      by (auto simp: Let_def split: sum.splits)
    from l have "lstat fs (src @ sp) \<noteq> None" by simp
    from mkdir_parents_staging [OF mk mir parent_is_dir [OF sd this]]
    have ma: "mirrors rs fs src sa" and ga: "grows (Some st) (Some sa)" by simp_all
    have na: "entry st q \<noteq> None \<or> prefix q sp" if "entry sa q \<noteq> None" for q
      using mkdir_parents_news [OF mk that] prefix_order.trans [OF _ prefixeq_butlast [of sp]]
      by blast
    have nb: "\<forall>q. entry sb q \<noteq> None \<longrightarrow> entry st q \<noteq> None \<or>
                  exists fs (src @ sp) \<and> (prefix q sp \<or> prefix sp q)"
      if "news sa sb sp" for sb
      using that na True unfolding news_def by blast
    show ?thesis
    proof (cases l)
      case (File r0 b0)
      with fl mf have eq: "r0 = r" "b0 = b" by simp_all
      from File l have ns: "\<not> is_symlink fs (src @ sp)" by (simp add: is_symlink_def)
      from run True fb mk ns m mf obtain sb where
        c2: "copy2 (Some (File r b)) (basename (src @ sp)) sp sa = Inr sb"
        and r: "staging_loop relink fs src sps rs sb = Inr st'"
        by (auto simp: Let_def split: sum.splits)
      from l File eq have "rs \<or> lstat fs (src @ sp) = Some (File r b)" by simp
      from copy2_staging [OF c2 ma m [unfolded mf] this]
      have mb: "mirrors rs fs src sb" and gb: "grows (Some sa) (Some sb)"
        and e: "entry sb sp = Some (File r b)" by simp_all
      from e have "lstat sb sp \<noteq> None" by (simp add: entry_lstat)
      with r mb grows_trans [OF ga gb] e l File eq nd nb [OF copy2_news [OF c2]]
      show ?thesis by auto
    next
      case (Dir es)
      with fl have "m = Dir es" by simp
      with mf show ?thesis by simp
    next
      case (Symlink t x)
      with l have iss: "is_symlink fs (src @ sp)" by (simp add: is_symlink_def)
      show ?thesis
      proof (cases rs)
        case rT: True
        from run True fb mk iss rT nd m mf l Symlink obtain sb where
          c2: "copy2 (Some (File r b)) (real_name l) sp sa = Inr sb"
          and r: "staging_loop relink fs src sps rs sb = Inr st'"
          by (auto simp: Let_def split: sum.splits)
        from rT have "rs \<or> lstat fs (src @ sp) = Some (File r b)" by simp
        from copy2_staging [OF c2 ma m [unfolded mf] this]
        have mb: "mirrors rs fs src sb" and gb: "grows (Some sa) (Some sb)"
          and e: "entry sb sp = Some (File r b)" by simp_all
        from e have "lstat sb sp \<noteq> None" by (simp add: entry_lstat)
        with r mb grows_trans [OF ga gb] l Symlink rT nd nb [OF copy2_news [OF c2]]
        show ?thesis by auto
      next
        case rF: False
        from run True fb mk iss rF l Symlink obtain sb where
          os: "os_symlink t (relink sp t) sp sa = Inr sb"
          and r: "staging_loop relink fs src sps rs sb = Inr st'"
          by (auto simp: Let_def split: sum.splits)
        from os_symlink_staging [OF os ma rF l [unfolded Symlink]]
        have mb: "mirrors rs fs src sb" and gb: "grows (Some sa) (Some sb)"
          and e: "entry sb sp = Some (Symlink t (relink sp t))" by simp_all
        from e have "lstat sb sp \<noteq> None" by (simp add: entry_lstat)
        with r mb grows_trans [OF ga gb] e l Symlink nd nb [OF os_symlink_news [OF os]]
        show ?thesis by auto
      qed
    qed
  next
    case nfb: False
    from nfb m have "\<exists>es. m = Dir es"
      by (cases m) (auto simp: is_file_def stat_not_link)
    then obtain es where md: "m = Dir es" by blast
    with m have d: "is_dir fs (src @ sp)" by (simp add: is_dir_def)
    from run True nfb d m obtain s1 where
      cd: "copy_dir relink m sp rs st = Inr s1"
      and r: "staging_loop relink fs src sps rs s1 = Inr st'"
      by (auto simp: Let_def split: sum.splits)
    from stat_follow_idem [OF m] m have fm: "follow m = stat fs (src @ sp)" by simp
    from copy_staging(1) [rule_format, OF cd fm mir]
    have m1: "mirrors rs fs src s1" and g1: "grows (Some st) (Some s1)"
      and l1: "lstat s1 sp \<noteq> None" by simp_all
    have lk: "\<forall>d q t r. \<not> rs \<longrightarrow> is_dir fs (src @ sp) \<longrightarrow> stat fs (src @ sp) = Some d \<longrightarrow>
                  entry d q = Some (Symlink t r) \<longrightarrow>
                  entry s1 (sp @ q) = Some (Symlink t (relink (sp @ q) t))"
    proof (intro allI impI)
      fix d q t r
      assume nrs: "\<not> rs" and "stat fs (src @ sp) = Some d" and e: "entry d q = Some (Symlink t r)"
      with m have "d = m" by simp
      with e have e': "entry m q = Some (Symlink t r)" by simp
      from copy_links(1) [rule_format, OF cd fm mir nrs stat_follow_idem [OF m] e']
      show "entry s1 (sp @ q) = Some (Symlink t (relink (sp @ q) t))" .
    qed
    from nfb have nf: "\<And>r b. lstat fs (src @ sp) \<noteq> Some (File r b)"
      by (auto simp: is_file_def stat_def)
    have nw: "\<forall>q. entry s1 q \<noteq> None \<longrightarrow> entry st q \<noteq> None \<or>
                  exists fs (src @ sp) \<and> (prefix q sp \<or> prefix sp q)"
      using copy_news(1) [rule_format, OF cd] True unfolding news_def by blast
    have fl: "\<forall>d q r b. is_dir fs (src @ sp) \<longrightarrow> stat fs (src @ sp) = Some d \<longrightarrow>
                  entry d q = Some (File r b) \<longrightarrow> (\<exists>r' b'. entry s1 (sp @ q) = Some (File r' b'))"
    proof (intro allI impI)
      fix d q r b
      assume "stat fs (src @ sp) = Some d" and e: "entry d q = Some (File r b)"
      with m have "d = m" by simp
      with e have e': "entry m q = Some (File r b)" by simp
      from copy_files(1) [rule_format, OF cd fm mir stat_follow_idem [OF m] e']
      show "\<exists>r' b'. entry s1 (sp @ q) = Some (File r' b')" .
    qed
    from r m1 g1 l1 nf d lk nw fl show ?thesis by blast
  qed
qed

lemma staging_loop_inv:
  assumes "staging_loop relink fs src sps rs st = Inr st'"
    and "is_dir fs src" and "mirrors rs fs src st"
  shows "mirrors rs fs src st' \<and> grows (Some st) (Some st') \<and>
         (\<forall>sp \<in> set sps. exists fs (src @ sp) \<longrightarrow> lstat st' sp \<noteq> None) \<and>
         (\<forall>sp \<in> set sps. \<forall>r b. lstat fs (src @ sp) = Some (File r b) \<longrightarrow>
              entry st' sp = Some (File r b)) \<and>
         (\<forall>sp \<in> set sps. \<forall>t r. \<not> rs \<longrightarrow> lstat fs (src @ sp) = Some (Symlink t r) \<longrightarrow>
              exists fs (src @ sp) \<longrightarrow> \<not> is_dir fs (src @ sp) \<longrightarrow>
              entry st' sp = Some (Symlink t (relink sp t))) \<and>
         (\<forall>sp \<in> set sps. \<forall>d q t r. \<not> rs \<longrightarrow> is_dir fs (src @ sp) \<longrightarrow>
              stat fs (src @ sp) = Some d \<longrightarrow> entry d q = Some (Symlink t r) \<longrightarrow>
              entry st' (sp @ q) = Some (Symlink t (relink (sp @ q) t))) \<and>
         (\<forall>q. entry st' q \<noteq> None \<longrightarrow> entry st q \<noteq> None \<or>
              (\<exists>sp \<in> set sps. exists fs (src @ sp) \<and> (prefix q sp \<or> prefix sp q))) \<and>
         (\<forall>sp \<in> set sps. \<forall>d q r b. is_dir fs (src @ sp) \<longrightarrow> stat fs (src @ sp) = Some d \<longrightarrow>
              entry d q = Some (File r b) \<longrightarrow> (\<exists>r' b'. entry st' (sp @ q) = Some (File r' b')))"
  using assms
proof (induction sps arbitrary: st)
  case Nil
  then show ?case by (simp add: grows_refl)
next
  case (Cons sp sps)
  from staging_step [OF Cons.prems] obtain st1 where
    r: "staging_loop relink fs src sps rs st1 = Inr st'"
    and m1: "mirrors rs fs src st1" and g1: "grows (Some st) (Some st1)"
    and a: "exists fs (src @ sp) \<longrightarrow> lstat st1 sp \<noteq> None"
    and b: "\<forall>r b. lstat fs (src @ sp) = Some (File r b) \<longrightarrow> entry st1 sp = Some (File r b)"
    and c: "\<forall>t r. \<not> rs \<longrightarrow> lstat fs (src @ sp) = Some (Symlink t r) \<longrightarrow> exists fs (src @ sp) \<longrightarrow>
                  \<not> is_dir fs (src @ sp) \<longrightarrow> entry st1 sp = Some (Symlink t (relink sp t))"
    and d: "\<forall>d q t r. \<not> rs \<longrightarrow> is_dir fs (src @ sp) \<longrightarrow> stat fs (src @ sp) = Some d \<longrightarrow>
                  entry d q = Some (Symlink t r) \<longrightarrow>
                  entry st1 (sp @ q) = Some (Symlink t (relink (sp @ q) t))"
    and n: "\<forall>q. entry st1 q \<noteq> None \<longrightarrow> entry st q \<noteq> None \<or>
                  exists fs (src @ sp) \<and> (prefix q sp \<or> prefix sp q)"
    and f: "\<forall>d q r b. is_dir fs (src @ sp) \<longrightarrow> stat fs (src @ sp) = Some d \<longrightarrow>
                  entry d q = Some (File r b) \<longrightarrow> (\<exists>r' b'. entry st1 (sp @ q) = Some (File r' b'))"
    by blast
  from Cons.IH [OF r Cons.prems(2) m1] have m': "mirrors rs fs src st'"
    and g': "grows (Some st1) (Some st')"
    and a': "\<forall>sp \<in> set sps. exists fs (src @ sp) \<longrightarrow> lstat st' sp \<noteq> None"
    and b': "\<forall>sp \<in> set sps. \<forall>r b. lstat fs (src @ sp) = Some (File r b) \<longrightarrow>
              entry st' sp = Some (File r b)"
    and c': "\<forall>sp \<in> set sps. \<forall>t r. \<not> rs \<longrightarrow> lstat fs (src @ sp) = Some (Symlink t r) \<longrightarrow>
              exists fs (src @ sp) \<longrightarrow> \<not> is_dir fs (src @ sp) \<longrightarrow>
              entry st' sp = Some (Symlink t (relink sp t))"
    and d': "\<forall>sp \<in> set sps. \<forall>d q t r. \<not> rs \<longrightarrow> is_dir fs (src @ sp) \<longrightarrow>
              stat fs (src @ sp) = Some d \<longrightarrow> entry d q = Some (Symlink t r) \<longrightarrow>
              entry st' (sp @ q) = Some (Symlink t (relink (sp @ q) t))"
    and n': "\<forall>q. entry st' q \<noteq> None \<longrightarrow> entry st1 q \<noteq> None \<or>
              (\<exists>sp \<in> set sps. exists fs (src @ sp) \<and> (prefix q sp \<or> prefix sp q))"
    and f': "\<forall>sp \<in> set sps. \<forall>d q r b. is_dir fs (src @ sp) \<longrightarrow> stat fs (src @ sp) = Some d \<longrightarrow>
              entry d q = Some (File r b) \<longrightarrow> (\<exists>r' b'. entry st' (sp @ q) = Some (File r' b'))"
    by simp_all
  have a0: "exists fs (src @ sp) \<longrightarrow> lstat st' sp \<noteq> None"
    using a grows_lstat [OF g'] by blast
  have b0: "\<forall>r b. lstat fs (src @ sp) = Some (File r b) \<longrightarrow> entry st' sp = Some (File r b)"
  proof (intro allI impI)
    fix r b
    assume l: "lstat fs (src @ sp) = Some (File r b)"
    with b have "entry st1 sp = Some (File r b)" by simp
    from grows_entry [OF g' this] obtain r' b' where e: "entry st' sp = Some (File r' b')"
      by (auto simp: same_kind_def)
    from mirrorsD [OF m' e] l have "File r' b' = File r b"
      by (simp add: agrees_File stat_of_lstat)
    with e show "entry st' sp = Some (File r b)" by simp
  qed
  have c0: "\<forall>t r. \<not> rs \<longrightarrow> lstat fs (src @ sp) = Some (Symlink t r) \<longrightarrow> exists fs (src @ sp) \<longrightarrow>
                  \<not> is_dir fs (src @ sp) \<longrightarrow> entry st' sp = Some (Symlink t (relink sp t))"
  proof (intro allI impI)
    fix t r
    assume "\<not> rs" "lstat fs (src @ sp) = Some (Symlink t r)" "exists fs (src @ sp)"
      "\<not> is_dir fs (src @ sp)"
    with c have "entry st1 sp = Some (Symlink t (relink sp t))" by blast
    from grows_entry [OF g' this] show "entry st' sp = Some (Symlink t (relink sp t))"
      by (auto simp: same_kind_def)
  qed
  have d0: "\<forall>d q t r. \<not> rs \<longrightarrow> is_dir fs (src @ sp) \<longrightarrow> stat fs (src @ sp) = Some d \<longrightarrow>
                  entry d q = Some (Symlink t r) \<longrightarrow>
                  entry st' (sp @ q) = Some (Symlink t (relink (sp @ q) t))"
  proof (intro allI impI)
    fix d0 q t r
    assume "\<not> rs" "is_dir fs (src @ sp)" "stat fs (src @ sp) = Some d0"
      "entry d0 q = Some (Symlink t r)"
    with d have "entry st1 (sp @ q) = Some (Symlink t (relink (sp @ q) t))" by blast
    from grows_entry [OF g' this] show "entry st' (sp @ q) = Some (Symlink t (relink (sp @ q) t))"
      by (auto simp: same_kind_def)
  qed
  have n0: "\<forall>q. entry st' q \<noteq> None \<longrightarrow> entry st q \<noteq> None \<or>
              (\<exists>x \<in> set (sp # sps). exists fs (src @ x) \<and> (prefix q x \<or> prefix x q))"
    using n n' by (metis list.set_intros(1) list.set_intros(2))
  have f0: "\<forall>d q r b. is_dir fs (src @ sp) \<longrightarrow> stat fs (src @ sp) = Some d \<longrightarrow>
                  entry d q = Some (File r b) \<longrightarrow> (\<exists>r' b'. entry st' (sp @ q) = Some (File r' b'))"
  proof (intro allI impI)
    fix d0 q r b
    assume "is_dir fs (src @ sp)" "stat fs (src @ sp) = Some d0" "entry d0 q = Some (File r b)"
    with f obtain r1 b1 where "entry st1 (sp @ q) = Some (File r1 b1)" by blast
    from grows_entry [OF g' this] show "\<exists>r' b'. entry st' (sp @ q) = Some (File r' b')"
      by (auto simp: same_kind_def)
  qed
  from m' grows_trans [OF g1 g'] a0 a' b0 b' c0 c' d0 d' n0 f0 f' show ?case by simp
qed

lemma mirrors_empty: "is_dir fs source_dir \<Longrightarrow> mirrors rs fs source_dir (Dir [])"
proof -
  assume d: "is_dir fs source_dir"
  have "agrees rs fs (source_dir @ q) n" if "entry (Dir []) q = Some n" for q n
  proof (cases q)
    case Nil
    with that d show ?thesis by (auto simp: agrees_def)
  next
    case (Cons c cs)
    with that show ?thesis by simp
  qed
  then show ?thesis by (simp add: mirrors_def)
qed














section \<open>The target file system: paths without links\<close>











section \<open>The deploy flow and its staging directory\<close>

text \<open>
  C4.  The claim asks that the staging directory is removed on every exit path of the
  deploy flow, the path on which the adapter's \<^verbatim>\<open>clean\<close> or \<^verbatim>\<open>deploy\<close> raises included.  The
  code calls \<^verbatim>\<open>shutil.rmtree(staging, ignore_errors=True)\<close> on its three normal paths and has
  no \<^verbatim>\<open>try\<close>/\<^verbatim>\<open>finally\<close> around the adapter calls.  Here the target directory \<^verbatim>\<open>t\<close> of the local
  adapter is a regular file, so \<^verbatim>\<open>deploy\<close> raises \<^verbatim>\<open>FileExistsError\<close> at its \<^verbatim>\<open>mkdir\<close>; the
  exception leaves the flow and the staging directory \<^verbatim>\<open>ksync-1\<close> is still there.
\<close>

theorem install_leaks_staging_on_adapter_error:
  "install_target (\<lambda>dst t. None) local_adapter (Dir [(''CLAUDE.md'', File rw ''x'')]) ''ksync-1'' False
     \<lparr>local_path = [], sync_paths = [[''CLAUDE.md'']]\<rparr>
     \<lparr>target_dir = [''t''], resolve_symlinks = True\<rparr>
     \<lparr>temp = [], remote = Dir [(''t'', File rw '''')]\<rparr>
   = (Inl FileExistsError, \<lparr>temp = [''ksync-1''], remote = Dir [(''t'', File rw '''')]\<rparr>)"
  by (simp add: install_target_def local_adapter_def prepare_staging_def deploy_def fs_eval store_eval)

section \<open>Deploy: the claims\<close>

text \<open>
  C5.  The claim says that \<open>deploy\<close> can be called twice in a row: the second call does not
  raise and leaves what the first call left.  The directory branch of \<open>deploy\<close> removes
  what the first call put there (\<^verbatim>\<open>shutil.rmtree(dst)\<close>) before it copies again; the file
  branch writes over it with \<^verbatim>\<open>shutil.copy2(src, dst)\<close>, which copies the mode along with
  the bytes.  So the copy of a staged file that is read-only is read-only, and the second
  call fails to open it for writing: \<^verbatim>\<open>PermissionError\<close>.
\<close>

theorem deploy_twice_read_only_file:
  "deploy (Dir [(''f'', File ro ''x'')]) [''t''] [[''f'']] (Dir [])
   = Inr (Dir [(''t'', Dir [(''f'', File ro ''x'')])], [[''f'']]) \<and>
   deploy (Dir [(''f'', File ro ''x'')]) [''t''] [[''f'']] (Dir [(''t'', Dir [(''f'', File ro ''x'')])])
   = Inl PermissionError"
  by (simp add: deploy_def fs_eval store_eval)

text \<open>
  C6.  The claim says that \<open>deploy\<close> fully replaces whatever is at the destination of a
  deployed path.  The directory branch of \<open>deploy\<close> does (\<^verbatim>\<open>shutil.rmtree(dst)\<close> before
  \<^verbatim>\<open>shutil.copytree\<close>); the file branch is a bare \<^verbatim>\<open>shutil.copy2(src, dst)\<close>, which copies a
  staged file \<^emph>\<open>into\<close> a destination that is a directory: the directory and its old content
  stay, and the file lands one level too deep.
\<close>

theorem deploy_file_onto_directory:
  "deploy (Dir [(''x'', File rw ''new'')]) [''t''] [[''x'']]
     (Dir [(''t'', Dir [(''x'', Dir [(''old'', File rw ''o'')])])])
   = Inr (Dir [(''t'', Dir [(''x'', Dir [(''old'', File rw ''o''), (''x'', File rw ''new'')])])],
          [[''x'']])"
  by (simp add: deploy_def fs_eval store_eval)

section \<open>The tree collector: the claim\<close>

text \<open>
  C9.  The claim says that \<open>collect_files\<close> records a file it may not read under its path
  with the sentinel, and neither leaves it out nor raises.  The \<^verbatim>\<open>try\<close> of \<open>collect_files\<close>
  covers \<^verbatim>\<open>read_text()\<close> alone.  Here the directory \<^verbatim>\<open>base/d\<close> may be neither searched nor
  listed, so its file \<^verbatim>\<open>s\<close> cannot be read.  For the syncPath \<^verbatim>\<open>d\<close> the walk
  \<^verbatim>\<open>src.rglob("*")\<close> passes over the directory and the file is left out; for the syncPath
  \<^verbatim>\<open>d/s\<close> the test \<^verbatim>\<open>src.exists()\<close>, outside the \<^verbatim>\<open>try\<close>, raises \<^verbatim>\<open>PermissionError\<close>.
\<close>

theorem collect_files_locked_directory:
  "is_file (Dir [(''base'', Dir [(''d'', Dir [(''s'', File rw ''secret'')])])]) [''base'', ''d'', ''s''] \<and>
   collect_files decode_ascii (\<lambda>p. p \<noteq> [''base'', ''d''])
     (Dir [(''base'', Dir [(''d'', Dir [(''s'', File rw ''secret'')])])]) [''base''] [[''d'']]
   = Inr [] \<and>
   collect_files decode_ascii (\<lambda>p. p \<noteq> [''base'', ''d''])
     (Dir [(''base'', Dir [(''d'', Dir [(''s'', File rw ''secret'')])])]) [''base''] [[''d'', ''s'']]
   = Inl PermissionError"
  by (simp add: collect_files_def denied_def rglob_def fs_eval)

section \<open>Clean: the claim\<close>




section \<open>Staging: what the staging directory holds\<close>



text \<open>
  C3.  The claim says that with \<^verbatim>\<open>resolve_symlinks=False\<close> a syncPath that is a link is
  staged as a link with the same target string, whether or not the target exists.
  \<^verbatim>\<open>prepare_staging\<close> has the branch for it (\<^verbatim>\<open>src.is_symlink() and not src.is_dir()\<close>,
  then \<^verbatim>\<open>os.symlink(os.readlink(src), dst)\<close>), but \<^verbatim>\<open>if not src.exists(): continue\<close> comes
  first and \<^verbatim>\<open>Path.exists\<close> is false for a broken link: the syncPath is skipped and the
  staging directory stays empty.
\<close>

theorem prepare_staging_skips_broken_link:
  "prepare_staging (\<lambda>dst t. None) (Dir [(''old'', Symlink ''/gone'' None)]) [] [[''old'']] False
   = Inr (Dir [])"
  by (simp add: prepare_staging_def fs_eval)

text \<open>
  What staging without resolution makes of the links of the source, when the source is a
  directory and \<^verbatim>\<open>prepare_staging\<close> returns: a syncPath that is a link whose target exists
  and is not a directory is in the staging directory a link with the same target string;
  every link inside a syncPath that is a directory, broken or not, is at the same relative
  path of the staging directory a link with the same target string; and every link of the
  staging directory has the target string of the source link at the same relative path.
\<close>

lemma prepare_staging_recreates_links:
  assumes "prepare_staging relink fs source_dir sps False = Inr staging"
    and "is_dir fs source_dir"
  shows "(\<forall>sp \<in> set sps. \<forall>t r. lstat fs (source_dir @ sp) = Some (Symlink t r) \<longrightarrow>
            exists fs (source_dir @ sp) \<longrightarrow> \<not> is_dir fs (source_dir @ sp) \<longrightarrow>
            entry staging sp = Some (Symlink t (relink sp t))) \<and>
         (\<forall>sp \<in> set sps. \<forall>d q t r. is_dir fs (source_dir @ sp) \<longrightarrow>
            stat fs (source_dir @ sp) = Some d \<longrightarrow> entry d q = Some (Symlink t r) \<longrightarrow>
            entry staging (sp @ q) = Some (Symlink t (relink (sp @ q) t))) \<and>
         (\<forall>p t x. entry staging p = Some (Symlink t x) \<longrightarrow>
            (\<exists>r. lstat fs (source_dir @ p) = Some (Symlink t r)))"
proof -
  from assms(1) have l: "staging_loop relink fs source_dir sps False (Dir []) = Inr staging"
    by (simp add: prepare_staging_def)
  note inv = staging_loop_inv [OF l assms(2) mirrors_empty [OF assms(2)]]
  from inv have mir: "mirrors False fs source_dir staging" by simp
  have 1: "\<forall>sp \<in> set sps. \<forall>t r. lstat fs (source_dir @ sp) = Some (Symlink t r) \<longrightarrow>
            exists fs (source_dir @ sp) \<longrightarrow> \<not> is_dir fs (source_dir @ sp) \<longrightarrow>
            entry staging sp = Some (Symlink t (relink sp t))"
    using inv by simp
  have 2: "\<forall>sp \<in> set sps. \<forall>d q t r. is_dir fs (source_dir @ sp) \<longrightarrow>
            stat fs (source_dir @ sp) = Some d \<longrightarrow> entry d q = Some (Symlink t r) \<longrightarrow>
            entry staging (sp @ q) = Some (Symlink t (relink (sp @ q) t))"
    using inv by simp
  have 3: "\<forall>p t x. entry staging p = Some (Symlink t x) \<longrightarrow>
            (\<exists>r. lstat fs (source_dir @ p) = Some (Symlink t r))"
  proof (intro allI impI)
    fix p t x
    assume "entry staging p = Some (Symlink t x)"
    from mirrorsD [OF mir this] show "\<exists>r. lstat fs (source_dir @ p) = Some (Symlink t r)"
      by (simp add: agrees_Symlink)
  qed
  from 1 2 3 show ?thesis by blast
qed

lemma prepare_staging_recreates_links_example:
  "prepare_staging (\<lambda>dst t. None)
     (Dir [(''src'', Dir [(''CLAUDE.md'', File rw ''# My Config''),
        (''link.md'', Symlink ''CLAUDE.md'' (Some (File rw ''# My Config''))),
        (''skills'', Dir [(''a.md'', File rw ''A''),
           (''ext-skill'', Symlink ''/ext/skill'' (Some (Dir [(''ext-skill.md'', File rw ''external'')]))),
           (''old'', Symlink ''/gone'' None)])])])
     [''src''] [[''CLAUDE.md''], [''nonexistent.txt''], [''link.md''], [''skills'']] False
   = Inr (Dir [(''CLAUDE.md'', File rw ''# My Config''),
           (''link.md'', Symlink ''CLAUDE.md'' None),
           (''skills'',
            Dir [(''a.md'', File rw ''A''),
                 (''ext-skill'', Symlink ''/ext/skill'' None),
                 (''old'', Symlink ''/gone'' None)])]) \<and>
   (\<exists>r. lstat (Dir [(''src'', Dir [(''CLAUDE.md'', File rw ''# My Config''),
        (''link.md'', Symlink ''CLAUDE.md'' (Some (File rw ''# My Config''))),
        (''skills'', Dir [(''a.md'', File rw ''A''),
           (''ext-skill'', Symlink ''/ext/skill'' (Some (Dir [(''ext-skill.md'', File rw ''external'')]))),
           (''old'', Symlink ''/gone'' None)])])])
     ([''src''] @ [''skills'', ''old'']) = Some (Symlink ''/gone'' r))"
proof -
  let ?fs = "Dir [(''src'', Dir [(''CLAUDE.md'', File rw ''# My Config''),
        (''link.md'', Symlink ''CLAUDE.md'' (Some (File rw ''# My Config''))),
        (''skills'', Dir [(''a.md'', File rw ''A''),
           (''ext-skill'', Symlink ''/ext/skill'' (Some (Dir [(''ext-skill.md'', File rw ''external'')]))),
           (''old'', Symlink ''/gone'' None)])])]"
  let ?sps = "[[''CLAUDE.md''], [''nonexistent.txt''], [''link.md''], [''skills'']]"
  let ?st = "Dir [(''CLAUDE.md'', File rw ''# My Config''),
           (''link.md'', Symlink ''CLAUDE.md'' None),
           (''skills'',
            Dir [(''a.md'', File rw ''A''),
                 (''ext-skill'', Symlink ''/ext/skill'' None),
                 (''old'', Symlink ''/gone'' None)])]"
  have run: "prepare_staging (\<lambda>dst t. None) ?fs [''src''] ?sps False = Inr ?st"
    by (simp add: prepare_staging_def fs_eval)
  have d: "is_dir ?fs [''src'']" by (simp add: fs_eval)
  have e: "entry ?st [''skills'', ''old''] = Some (Symlink ''/gone'' None)" by simp
  from prepare_staging_recreates_links [OF run d] e
  have "\<exists>r. lstat ?fs ([''src''] @ [''skills'', ''old'']) = Some (Symlink ''/gone'' r)"
    by blast
  with run show ?thesis by simp
qed

end
